theory Spec2Isabelle
  imports Main "HOL-Library.Word" "HOL-Library.AList" "HOL-Library.Sublist"
begin

section \<open>PulsePoint to Discord: the decryptor's helpers\<close>

text \<open>
  The model follows \<^verbatim>\<open>src/src/pulsepoint-workflow.ts\<close>. A JavaScript string is a
  list of characters; every function on strings below is written over the positions of
  that list, as the source's \<^verbatim>\<open>substring\<close>, \<^verbatim>\<open>lastIndexOf\<close> and indexing are.
\<close>

subsection \<open>The passphrase (lines 818 to 820)\<close>

text \<open>
  \<^verbatim>\<open>e[i]\<close> inside a string concatenation: the character at position \<open>i\<close>, or the text
  \<^verbatim>\<open>undefined\<close> when \<open>i\<close> is out of range.
\<close>

definition char_at :: "string \<Rightarrow> nat \<Rightarrow> string" where
  "char_at s i = (if i < length s then [s ! i] else ''undefined'')"

text \<open>\<^verbatim>\<open>toLowerCase\<close> on the letters A to Z; every other character is kept.\<close>

definition lower_char :: "char \<Rightarrow> char" where
  "lower_char c =
     (if (65::nat) \<le> of_char c \<and> of_char c \<le> (90::nat)
      then char_of (of_char c + (32::nat)) else c)"

definition toLowerCase :: "string \<Rightarrow> string" where
  "toLowerCase s = map lower_char s"

definition password :: string where
  "password =
     (let t = ''''; e = ''CommonIncidents''
      in t @ (char_at e 13 @ char_at e 1 @ char_at e 2 @ ''brady'' @ ''5'' @ ''r''
              @ char_at (toLowerCase e) 6 @ char_at e 5 @ ''gs''))"

subsection \<open>The key derivation (lines 823 to 843)\<close>

type_synonym byte = "8 word"

text \<open>
  \<^verbatim>\<open>crypto.subtle.digest('MD5', ...)\<close> belongs to the platform: it is a parameter
  \<open>H\<close> of the model, a function from a byte sequence to a 128-bit digest. The
  \<^verbatim>\<open>ArrayBuffer\<close> it returns is read as the digest's 16 bytes, the most significant
  first.
\<close>

definition digest_bytes :: "128 word \<Rightarrow> byte list" where
  "digest_bytes d = map (\<lambda>i. ucast (drop_bit (8 * (15 - i)) d)) [0..<16]"

text \<open>\<^verbatim>\<open>new TextEncoder().encode(t)\<close> on a text of ASCII characters.\<close>

definition encode :: "string \<Rightarrow> byte list" where
  "encode s = map (\<lambda>c. word_of_nat (of_char c)) s"

text \<open>
  The \<^verbatim>\<open>while (key.length < 32)\<close> loop. \<open>block\<close> is \<open>None\<close> for the source's
  \<^verbatim>\<open>null\<close>.
\<close>

function key_loop ::
  "(byte list \<Rightarrow> 128 word) \<Rightarrow> byte list \<Rightarrow> byte list \<Rightarrow> byte list option \<Rightarrow> byte list
   \<Rightarrow> byte list"
where
  "key_loop H t salt block key =
     (if length key < 32
      then (let hasher = digest_bytes
                  (H ((case block of Some b \<Rightarrow> b | None \<Rightarrow> []) @ t @ salt))
            in key_loop H t salt (Some hasher) (key @ hasher))
      else key)"
  by pat_completeness auto
termination
  by (relation "measure (\<lambda>(H, t, salt, block, key). 32 - length key)")
     (auto simp: digest_bytes_def)

definition derive_key :: "(byte list \<Rightarrow> 128 word) \<Rightarrow> byte list \<Rightarrow> byte list" where
  "derive_key H salt =
     (let key = key_loop H (encode password) salt None []
      in if length key > 32 then take 32 key else key)"

text \<open>
  The derivation in the specification's words: the chain of the first \<open>n\<close> hash blocks,
  each the digest of the previous block, the passphrase bytes and the salt.
\<close>

fun hash_chain ::
  "(byte list \<Rightarrow> 128 word) \<Rightarrow> byte list \<Rightarrow> byte list \<Rightarrow> byte list \<Rightarrow> nat \<Rightarrow> byte list list"
where
  "hash_chain H p s prev 0 = []"
| "hash_chain H p s prev (Suc n) =
     (let b = digest_bytes (H (prev @ p @ s)) in b # hash_chain H p s b n)"

subsection \<open>Unwrapping the plaintext (lines 868 to 879)\<close>

definition dquote :: char where
  "dquote = CHR 0x22"

definition backslash :: char where
  "backslash = CHR 0x5C"

text \<open>\<^verbatim>\<open>s.lastIndexOf(c)\<close>: the last position of \<open>c\<close>, or \<open>-1\<close>.\<close>

definition lastIndexOf :: "'a list \<Rightarrow> 'a \<Rightarrow> int" where
  "lastIndexOf s c =
     (if c \<in> set s
      then int (length s) - 1 - int (length (takeWhile (\<lambda>x. x \<noteq> c) (rev s)))
      else - 1)"

text \<open>
  \<^verbatim>\<open>s.substring(a, b)\<close>: both arguments are clamped to \<open>0 .. length s\<close>, and they are
  swapped when the first is the larger.
\<close>

definition substring :: "'a list \<Rightarrow> int \<Rightarrow> int \<Rightarrow> 'a list" where
  "substring s a b =
     (let len = int (length s);
          finalStart = min (max a 0) len;
          finalEnd = min (max b 0) len;
          from = min finalStart finalEnd;
          to = max finalStart finalEnd
      in take (nat (to - from)) (drop (nat from) s))"

definition strip_wrapper :: "string \<Rightarrow> string" where
  "strip_wrapper out =
     (let quoteEndIndex = lastIndexOf out dquote
      in substring out 1 (if quoteEndIndex \<ge> 0 then quoteEndIndex else int (length out)))"

text \<open>\<^verbatim>\<open>out.replace(/\\"/g, '"')\<close>: every backslash followed by a quote becomes a quote.\<close>

fun unescape_quotes :: "string \<Rightarrow> string" where
  "unescape_quotes (a # b # rest) =
     (if a = backslash \<and> b = dquote then dquote # unescape_quotes rest
      else a # unescape_quotes (b # rest))"
| "unescape_quotes s = s"

definition unwrap :: "string \<Rightarrow> string" where
  "unwrap out = unescape_quotes (strip_wrapper out)"

section \<open>The normalizer (lines 79 to 107 and 775 to 802)\<close>

text \<open>
  \<^verbatim>\<open>statusMap[status]\<close> reads a property of an object literal: one of the literal's own
  entries, or else a member that every object inherits from \<^verbatim>\<open>Object.prototype\<close>
  (a function or an object, never a string), or else \<^verbatim>\<open>undefined\<close>. A display
  value is therefore a text or such an inherited member.
\<close>

datatype display = Text string | Inherited string

definition object_prototype_names :: "string list" where
  "object_prototype_names =
     [''constructor'', ''__proto__'', ''hasOwnProperty'', ''isPrototypeOf'',
      ''propertyIsEnumerable'', ''toLocaleString'', ''toString'', ''valueOf'',
      ''__defineGetter__'', ''__defineSetter__'', ''__lookupGetter__'',
      ''__lookupSetter__'']"

definition object_lookup :: "(string \<times> string) list \<Rightarrow> string \<Rightarrow> display option" where
  "object_lookup props k =
     (case map_of props k of
        Some v \<Rightarrow> Some (Text v)
      | None \<Rightarrow> if k \<in> set object_prototype_names then Some (Inherited k) else None)"

text \<open>
  \<^verbatim>\<open>v || 'Unknown'\<close>: the value unless it is falsy; an inherited member is truthy, and so
  is a text that is not empty.
\<close>

definition or_unknown :: "display option \<Rightarrow> display" where
  "or_unknown v =
     (case v of
        None \<Rightarrow> Text ''Unknown''
      | Some (Text t) \<Rightarrow> if t = [] then Text ''Unknown'' else Text t
      | Some (Inherited k) \<Rightarrow> Inherited k)"

definition statusMap :: "(string \<times> string) list" where
  "statusMap =
     [(''AR'', ''Cleared''), (''ER'', ''En Route''), (''OS'', ''On Scene''),
      (''TR'', ''Transport''), (''DP'', ''Dispatched''), (''AK'', ''Dispatched''),
      (''TA'', ''Transport Arrived'')]"

definition mapDispatchStatus :: "string option \<Rightarrow> display" where
  "mapDispatchStatus status =
     (case status of
        None \<Rightarrow> Text ''Unknown''
      | Some st \<Rightarrow> if st = [] then Text ''Unknown'' else or_unknown (object_lookup statusMap st))"

definition typeMap :: "(string \<times> string) list" where
  "typeMap =
     [(''ME'', ''Medical Emergency''), (''TC'', ''Traffic Collision''), (''STBY'', ''Standby''),
      (''TCE'', ''Expanded Traffic Collision''), (''CSR'', ''Confined Space''),
      (''HMR'', ''Hazardous Materials Response'')]"

definition mapIncidentCallType :: "string option \<Rightarrow> display" where
  "mapIncidentCallType callType =
     (case callType of
        None \<Rightarrow> Text ''Unknown''
      | Some ct \<Rightarrow> if ct = [] then Text ''Unknown'' else or_unknown (object_lookup typeMap ct))"

record PulsePointUnit =
  UnitID :: string
  PulsePointDispatchStatus :: "string option"
  DisplayDispatchStatus :: "display option"

record PulsePointIncident =
  ID :: string
  Closed :: "bool option"
  CallReceivedDateTime :: "string option"
  PulsePointIncidentCallType :: "string option"
  DisplayIncidentCallType :: "display option"
  FullDisplayAddress :: "string option"
  Unit :: "PulsePointUnit list option"

text \<open>The decrypted feed: \<^verbatim>\<open>incidents\<close>, \<^verbatim>\<open>active\<close> and \<^verbatim>\<open>recent\<close> may each be absent.\<close>

record IncidentLists =
  active :: "PulsePointIncident list option"
  recent :: "PulsePointIncident list option"

record DecryptedFeed =
  incidents :: "IncidentLists option"

definition or_empty :: "'a list option \<Rightarrow> 'a list" where
  "or_empty v = (case v of Some xs \<Rightarrow> xs | None \<Rightarrow> [])"

definition display_unit :: "PulsePointUnit \<Rightarrow> PulsePointUnit" where
  "display_unit unit =
     unit\<lparr>DisplayDispatchStatus := Some (mapDispatchStatus (PulsePointDispatchStatus unit))\<rparr>"

definition display_incident :: "PulsePointIncident \<Rightarrow> PulsePointIncident" where
  "display_incident incident =
     (let withUnits = (case Unit incident of
                         Some units \<Rightarrow> incident\<lparr>Unit := Some (map display_unit units)\<rparr>
                       | None \<Rightarrow> incident)
      in withUnits\<lparr>DisplayIncidentCallType :=
           Some (mapIncidentCallType (PulsePointIncidentCallType withUnits))\<rparr>)"

definition process_feed :: "DecryptedFeed \<Rightarrow> PulsePointIncident list" where
  "process_feed decrypted =
     (let activeIncidents = or_empty (case incidents decrypted of Some l \<Rightarrow> active l | None \<Rightarrow> None);
          recentIncidents = or_empty (case incidents decrypted of Some l \<Rightarrow> recent l | None \<Rightarrow> None);
          activeTagged = map (\<lambda>incident. incident\<lparr>Closed := Some False\<rparr>) activeIncidents;
          recentTagged = map (\<lambda>incident. incident\<lparr>Closed := Some True\<rparr>) recentIncidents;
          allIncidents = activeTagged @ recentTagged
      in map display_incident allIncidents)"

section \<open>The reconciliation run (lines 114 to 678)\<close>

subsection \<open>The store, the channel and the clock\<close>

text \<open>
  A tracking record as the store holds it. \<open>lastUpdated\<close> is the instant in epoch
  milliseconds: the source writes it with \<^verbatim>\<open>toISOString\<close> and reads it back with
  \<^verbatim>\<open>new Date(...).getTime()\<close>, which give the same instant. The cached display call
  type is a display value or absent.
\<close>

record StoredIncident =
  pulsepointId :: string
  closed :: bool
  messageId :: "string option"
  lastUpdated :: int
  callReceived :: "string option"
  displayIncidentCallType :: "display option"

datatype kv_op = Put string StoredIncident | Delete string

datatype http_method = POST | PATCH

text \<open>
  The body of a notification is kept as far as the transitions differ in it: the
  presentation (the title's suffix and the colour) and the incident the footer names.
  The embed's list of fields is not modelled.
\<close>

datatype presentation = Alert | ClosedNotice | ExpiredNotice

record request =
  req_method :: http_method
  url :: string
  presentation :: presentation
  footer_id :: string

text \<open>
  What the channel answers. \<open>Threw\<close>: \<^verbatim>\<open>fetch\<close> rejects. Otherwise the answer has its
  \<^verbatim>\<open>ok\<close> flag and a body: \<open>Unreadable\<close> when \<^verbatim>\<open>response.text()\<close> rejects, \<open>Blank\<close>
  when the text is empty or white space, \<open>Malformed\<close> when \<^verbatim>\<open>JSON.parse\<close> throws,
  \<open>Json JOther\<close> for a parsed value that is not an object with members (null, a
  number, a text, an array), and \<open>Json (JObject id message_id message.id)\<close> for an
  object with those three members, each possibly absent.
\<close>

datatype json = JOther | JObject "string option" "string option" "string option"

datatype body = Unreadable | Blank | Malformed | Json json

datatype response = Threw | Response bool body

text \<open>
  The environment of a run: the two webhook addresses, the channel's answer to the
  \<open>n\<close>-th call (given the request) and the clock's \<open>n\<close>-th reading.
\<close>

record env =
  DISCORD_WEBHOOK_URL :: string
  DISCORD_STANDBY_WEBHOOK_URL :: string
  answer :: "nat \<Rightarrow> request \<Rightarrow> response"
  clock :: "nat \<Rightarrow> int"

text \<open>
  The state a run threads through its steps: the store with the log of its writes, the
  log of the calls made, the number of clock readings, the snapshot
  \<^verbatim>\<open>trackedIncidents\<close> (an object of the source, whose records the update step
  mutates), and the counters the steps return.
\<close>

record state =
  kv :: "(string \<times> StoredIncident) list"
  ops :: "kv_op list"
  calls :: "request list"
  ticks :: nat
  trackedIncidents :: "(string \<times> StoredIncident) list"
  newCount :: nat
  updateCount :: nat
  closedCount :: nat
  expiredCount :: nat
  prunedCount :: nat

definition now :: "env \<Rightarrow> state \<Rightarrow> int \<times> state" where
  "now e s = (clock e (ticks s), s\<lparr>ticks := Suc (ticks s)\<rparr>)"

definition fetch :: "env \<Rightarrow> request \<Rightarrow> state \<Rightarrow> response \<times> state" where
  "fetch e req s = (answer e (length (calls s)) req, s\<lparr>calls := calls s @ [req]\<rparr>)"

definition kv_put :: "string \<Rightarrow> StoredIncident \<Rightarrow> state \<Rightarrow> state" where
  "kv_put k v s = s\<lparr>kv := AList.update k v (kv s), ops := ops s @ [Put k v]\<rparr>"

definition kv_delete :: "string \<Rightarrow> state \<Rightarrow> state" where
  "kv_delete k s = s\<lparr>kv := AList.delete k (kv s), ops := ops s @ [Delete k]\<rparr>"

definition incident_key :: "string \<Rightarrow> string" where
  "incident_key x = ''incident:'' @ x"

text \<open>A value used as a condition: a text is truthy unless it is absent or empty.\<close>

definition truthy :: "string option \<Rightarrow> bool" where
  "truthy v = (case v of None \<Rightarrow> False | Some t \<Rightarrow> t \<noteq> [])"

definition or_text :: "string option \<Rightarrow> string" where
  "or_text v = (case v of None \<Rightarrow> [] | Some t \<Rightarrow> t)"

text \<open>A number in a template string: its decimal digits.\<close>

definition digit_char :: "nat \<Rightarrow> char" where
  "digit_char n = char_of (48 + n)"

function show_digits :: "int \<Rightarrow> string" where
  "show_digits i =
     (if i < 10 then [digit_char (nat i)]
      else show_digits (i div 10) @ [digit_char (nat (i mod 10))])"
  by pat_completeness auto
termination
  by (relation "measure nat") auto

definition show_int :: "int \<Rightarrow> string" where
  "show_int i = (if i < 0 then CHR ''-'' # show_digits (- i) else show_digits i)"

subsection \<open>Step 3: the snapshot (lines 115 to 133)\<close>

text \<open>
  \<^verbatim>\<open>list({ prefix: 'incident:' })\<close>, then one \<^verbatim>\<open>get\<close> per key; a record is filed under
  its own \<^verbatim>\<open>pulsepointId\<close>. The listing is taken to return every key. The snapshot
  is an object: its members are kept here in the order in which they were filed, and
  \<open>object_entries\<close> below gives the order in which the source enumerates them.
\<close>

definition kv_list :: "(string \<times> StoredIncident) list \<Rightarrow> string \<Rightarrow> string list" where
  "kv_list st p = filter (prefix p) (map fst st)"

definition file_record ::
  "(string \<times> StoredIncident) list \<Rightarrow> string \<Rightarrow> (string \<times> StoredIncident) list
   \<Rightarrow> (string \<times> StoredIncident) list"
where
  "file_record st k acc =
     (case map_of st k of None \<Rightarrow> acc | Some d \<Rightarrow> AList.update (pulsepointId d) d acc)"

definition load_tracked :: "(string \<times> StoredIncident) list \<Rightarrow> (string \<times> StoredIncident) list" where
  "load_tracked st = fold (file_record st) (kv_list st ''incident:'') []"

definition load_step :: "state \<Rightarrow> state" where
  "load_step s =
     s\<lparr>trackedIncidents := load_tracked (kv s), newCount := 0, updateCount := 0,
       closedCount := 0, expiredCount := 0, prunedCount := 0\<rparr>"

text \<open>
  \<^verbatim>\<open>Object.entries\<close> (lines 528 and 637) lists the members of an object: first those
  whose name is an array index (the decimal form, without leading zeros, of an integer
  below \<open>2\<^sup>3\<^sup>2 - 1\<close>) in ascending order of the index, then the others in the order
  in which they were added.
\<close>

definition is_digit :: "char \<Rightarrow> bool" where
  "is_digit c \<longleftrightarrow> (48::nat) \<le> of_char c \<and> of_char c \<le> (57::nat)"

definition decimal :: "string \<Rightarrow> int" where
  "decimal k = fold (\<lambda>c n. 10 * n + (int (of_char c) - 48)) k 0"

definition array_index :: "string \<Rightarrow> int option" where
  "array_index k =
     (if k \<noteq> [] \<and> list_all is_digit k \<and> (k = ''0'' \<or> hd k \<noteq> CHR ''0'')
         \<and> decimal k < 4294967295
      then Some (decimal k) else None)"

definition index_of :: "string \<Rightarrow> int" where
  "index_of k = (case array_index k of Some n \<Rightarrow> n | None \<Rightarrow> 0)"

definition object_entries :: "(string \<times> 'a) list \<Rightarrow> (string \<times> 'a) list" where
  "object_entries obj =
     sort_key (\<lambda>(k, v). index_of k) (filter (\<lambda>(k, v). array_index k \<noteq> None) obj)
     @ filter (\<lambda>(k, v). array_index k = None) obj"

text \<open>
  \<^verbatim>\<open>trackedIncidents[id]\<close> reads the snapshot, an object: the record filed under
  \<open>id\<close>, or else a member inherited from \<^verbatim>\<open>Object.prototype\<close> when \<open>id\<close> names
  one (a truthy value with no \<^verbatim>\<open>closed\<close> and no \<^verbatim>\<open>messageId\<close>), or else
  \<^verbatim>\<open>undefined\<close>. The program never files a record under \<^verbatim>\<open>__proto__\<close> (an incident
  of that name is never new), so the assignment that would replace the snapshot's
  prototype is not modelled.
\<close>

datatype lookup = Undefined | Proto | Own StoredIncident

definition tracked_lookup :: "(string \<times> StoredIncident) list \<Rightarrow> string \<Rightarrow> lookup" where
  "tracked_lookup tracked x =
     (case map_of tracked x of
        Some d \<Rightarrow> Own d
      | None \<Rightarrow> if x \<in> set object_prototype_names then Proto else Undefined)"

subsection \<open>Step 4: new incidents (lines 136 to 265)\<close>

definition place_names :: "string list" where
  "place_names =
     [''VANCOUVER'', ''BURNABY'', ''WESTMINSTER'', ''SURREY'', ''DELTA'', ''BELCARRA'',
      ''MAPLE RIDGE'', ''RICHMOND'', ''COQUITLAM'', ''LANGLEY'', ''ABBOTSFORD'',
      ''CHILLIWACK'', ''MISSION'', ''YALE'', ''ADDRESS NOT AVAILABLE'']"

definition upper_char :: "char \<Rightarrow> char" where
  "upper_char c =
     (if (97::nat) \<le> of_char c \<and> of_char c \<le> (122::nat)
      then char_of (of_char c - (32::nat)) else c)"

text \<open>
  The location pattern is one alternative of place names between two \<^verbatim>\<open>.*\<close>, tested
  without anchors and without regard to case: it matches when the address holds one
  of the names.
\<close>

definition contains :: "string \<Rightarrow> string \<Rightarrow> bool" where
  "contains s p = list_ex (prefix p) (suffixes s)"

definition locationRegex_test :: "string \<Rightarrow> bool" where
  "locationRegex_test address = list_ex (contains (map upper_char address)) place_names"

definition isMatch :: "PulsePointIncident \<Rightarrow> bool" where
  "isMatch incident =
     (truthy (FullDisplayAddress incident) \<and> locationRegex_test (or_text (FullDisplayAddress incident)))"

definition new_ones ::
  "(string \<times> StoredIncident) list \<Rightarrow> PulsePointIncident list \<Rightarrow> PulsePointIncident list"
where
  "new_ones tracked feed =
     filter (\<lambda>incident. tracked_lookup tracked (ID incident) = Undefined
                        \<and> Closed incident \<noteq> Some True \<and> isMatch incident) feed"

definition webhook_for :: "env \<Rightarrow> display option \<Rightarrow> string" where
  "webhook_for e callType =
     (if callType = Some (Text ''Standby'') then DISCORD_STANDBY_WEBHOOK_URL e
      else DISCORD_WEBHOOK_URL e)"

text \<open>
  \<^verbatim>\<open>buildDiscordFields\<close> (lines 682 to 772) makes the embed's list of fields, which
  is not modelled, and reads the clock once for the last of them (line 767): what is
  kept of it here is that reading.
\<close>

definition buildDiscordFields :: "env \<Rightarrow> state \<Rightarrow> state" where
  "buildDiscordFields e s = snd (now e s)"

text \<open>
  The cached display call type as \<^verbatim>\<open>JSON.stringify\<close> writes it (line 255): a member
  whose value is a function is left out, and the members inherited from
  \<^verbatim>\<open>Object.prototype\<close> are functions, all but \<^verbatim>\<open>__proto__\<close>, whose value is the
  prototype object and is written as an empty object, a value that is still not a
  text. The records the other steps write come from the store, where they were written
  this way.
\<close>

definition stored_display :: "display option \<Rightarrow> display option" where
  "stored_display d =
     (case d of
        Some (Inherited k) \<Rightarrow> if k = ''__proto__'' then Some (Inherited k) else None
      | _ \<Rightarrow> d)"

text \<open>The identifier a create answer carries: \<^verbatim>\<open>id\<close>, \<^verbatim>\<open>message_id\<close> or \<^verbatim>\<open>message.id\<close>.\<close>

definition created_id :: "body \<Rightarrow> string option" where
  "created_id b =
     (case b of
        Json (JObject i m mi) \<Rightarrow>
          if truthy i then i else if truthy m then m else if truthy mi then mi else None
      | _ \<Rightarrow> None)"

definition process_new :: "env \<Rightarrow> PulsePointIncident \<Rightarrow> state \<Rightarrow> state" where
  "process_new e incident s =
     (let (t, s0) = now e s;
          fallbackId = ''incident-'' @ ID incident @ ''-'' @ show_int t;
          s1 = buildDiscordFields e s0;
          webhookUrl = webhook_for e (DisplayIncidentCallType incident);
          (response, s2) = fetch e \<lparr>req_method = POST, url = webhookUrl @ ''?wait=true'',
                                    presentation = Alert, footer_id = ID incident\<rparr> s1
      in case response of
           Threw \<Rightarrow> s2
         | Response ok b \<Rightarrow>
             if \<not> ok then s2
             else if b = Unreadable then s2
             else (let messageId = (case created_id b of Some m \<Rightarrow> m | None \<Rightarrow> fallbackId);
                       (t2, s3) = now e s2
                   in kv_put (incident_key (ID incident))
                        \<lparr>pulsepointId = ID incident, closed = False, messageId = Some messageId,
                         lastUpdated = t2, callReceived = CallReceivedDateTime incident,
                         displayIncidentCallType =
                           stored_display (DisplayIncidentCallType incident)\<rparr> s3))"

definition new_step :: "env \<Rightarrow> PulsePointIncident list \<Rightarrow> state \<Rightarrow> state" where
  "new_step e feed s =
     (let newOnes = new_ones (trackedIncidents s) feed
      in (fold (process_new e) newOnes s)\<lparr>newCount := length newOnes\<rparr>)"

subsection \<open>Step 5: open incidents (lines 268 to 435)\<close>

definition open_incidents ::
  "(string \<times> StoredIncident) list \<Rightarrow> PulsePointIncident list \<Rightarrow> PulsePointIncident list"
where
  "open_incidents tracked feed =
     filter (\<lambda>incident. case tracked_lookup tracked (ID incident) of
                          Undefined \<Rightarrow> False
                        | Proto \<Rightarrow> Closed incident \<noteq> Some True
                        | Own t \<Rightarrow> \<not> closed t \<and> Closed incident \<noteq> Some True) feed"

text \<open>\<^verbatim>\<open>tracked.messageId = m\<close>: the assignment changes the record inside the snapshot.\<close>

definition adopt_id :: "string \<Rightarrow> string \<Rightarrow> state \<Rightarrow> state" where
  "adopt_id x m s =
     s\<lparr>trackedIncidents := AList.map_entry x (\<lambda>r. r\<lparr>messageId := Some m\<rparr>) (trackedIncidents s)\<rparr>"

text \<open>
  The identifier the update step reads from a create answer: \<^verbatim>\<open>messageData.id\<close> only,
  and nothing from a blank, malformed or unreadable body.
\<close>

definition adopt_from :: "string \<Rightarrow> body \<Rightarrow> state \<Rightarrow> state" where
  "adopt_from x b s =
     (case b of
        Json (JObject i m mi) \<Rightarrow> if truthy i then adopt_id x (or_text i) s else s
      | _ \<Rightarrow> s)"

text \<open>Lines 422 to 428: the record as the snapshot now has it, with a new time.\<close>

definition store_updated :: "env \<Rightarrow> string \<Rightarrow> state \<Rightarrow> state" where
  "store_updated e x s =
     (case map_of (trackedIncidents s) x of
        None \<Rightarrow> s
      | Some tracked \<Rightarrow>
          (let (t, s1) = now e s;
               s2 = kv_put (incident_key x) (tracked\<lparr>lastUpdated := t\<rparr>) s1
           in s2\<lparr>updateCount := Suc (updateCount s2)\<rparr>))"

text \<open>
  One round of the update loop. The filter has put no untracked incident in the list,
  so the first case does not arise in a run; an inherited member has no
  \<^verbatim>\<open>messageId\<close>, so its round is skipped. On the patch branch the source tests
  \<^verbatim>\<open>response.ok\<close> again inside \<^verbatim>\<open>if (!response.ok)\<close>: the creation of a new message
  there is commented out, and the inner test is kept here as it is written.
\<close>

definition process_open :: "env \<Rightarrow> PulsePointIncident \<Rightarrow> state \<Rightarrow> state" where
  "process_open e incident s =
     (case tracked_lookup (trackedIncidents s) (ID incident) of
        Undefined \<Rightarrow> s
      | Proto \<Rightarrow> s
      | Own tracked \<Rightarrow>
          if \<not> truthy (messageId tracked) then s
          else
            (let s0 = buildDiscordFields e s;
                 isRealMessageId = \<not> prefix ''incident-'' (or_text (messageId tracked));
                 baseWebhookUrl = webhook_for e (DisplayIncidentCallType incident)
             in if isRealMessageId
                then
                  (let updateUrl = baseWebhookUrl @ ''/messages/'' @ or_text (messageId tracked);
                       (response, s1) = fetch e \<lparr>req_method = PATCH, url = updateUrl,
                                                 presentation = Alert, footer_id = ID incident\<rparr> s0
                   in case response of
                        Threw \<Rightarrow> s1
                      | Response ok b \<Rightarrow>
                          (let s2 = (if \<not> ok then (if ok then adopt_from (ID incident) b s1 else s1)
                                     else s1)
                           in if \<not> ok then s2 else store_updated e (ID incident) s2))
                else
                  (let (response, s1) = fetch e \<lparr>req_method = POST, url = baseWebhookUrl,
                                                 presentation = Alert, footer_id = ID incident\<rparr> s0
                   in case response of
                        Threw \<Rightarrow> s1
                      | Response ok b \<Rightarrow>
                          (let s2 = (if ok then adopt_from (ID incident) b s1 else s1)
                           in if \<not> ok then s2 else store_updated e (ID incident) s2))))"

definition open_step :: "env \<Rightarrow> PulsePointIncident list \<Rightarrow> state \<Rightarrow> state" where
  "open_step e feed s = fold (process_open e) (open_incidents (trackedIncidents s) feed) s"

subsection \<open>Step 6: newly closed incidents (lines 438 to 520)\<close>

definition newly_closed ::
  "(string \<times> StoredIncident) list \<Rightarrow> PulsePointIncident list \<Rightarrow> PulsePointIncident list"
where
  "newly_closed tracked feed =
     filter (\<lambda>incident. case tracked_lookup tracked (ID incident) of
                          Undefined \<Rightarrow> False
                        | Proto \<Rightarrow> Closed incident = Some True
                        | Own t \<Rightarrow> \<not> closed t \<and> Closed incident = Some True) feed"

text \<open>
  Lines 468 to 499 and 576 to 607: the request of a transition is a patch of the stored
  message when the identifier is a real one, a new message when it is a fallback. The
  update step builds the same two requests (lines 305 to 376).
\<close>

definition transition_request :: "env \<Rightarrow> display option \<Rightarrow> string \<Rightarrow> presentation \<Rightarrow> string \<Rightarrow> request" where
  "transition_request e callType mid p x =
     (let isRealMessageId = \<not> prefix ''incident-'' mid;
          baseWebhookUrl = webhook_for e callType
      in if isRealMessageId
         then \<lparr>req_method = PATCH, url = baseWebhookUrl @ ''/messages/'' @ mid,
               presentation = p, footer_id = x\<rparr>
         else \<lparr>req_method = POST, url = baseWebhookUrl, presentation = p, footer_id = x\<rparr>)"

definition process_closed :: "env \<Rightarrow> PulsePointIncident \<Rightarrow> state \<Rightarrow> state" where
  "process_closed e incident s =
     (case tracked_lookup (trackedIncidents s) (ID incident) of
        Undefined \<Rightarrow> s
      | Proto \<Rightarrow> s
      | Own tracked \<Rightarrow>
          if \<not> truthy (messageId tracked) then s
          else
            (let s0 = buildDiscordFields e s;
                 (response, s1) =
                   fetch e (transition_request e (DisplayIncidentCallType incident)
                              (or_text (messageId tracked)) ClosedNotice (ID incident)) s0
             in case response of
                  Threw \<Rightarrow> s1
                | Response ok b \<Rightarrow>
                    if \<not> ok then s1
                    else (let (t, s2) = now e s1;
                              s3 = kv_put (incident_key (ID incident))
                                     (tracked\<lparr>closed := True, lastUpdated := t\<rparr>) s2
                          in s3\<lparr>closedCount := Suc (closedCount s3)\<rparr>)))"

definition closed_step :: "env \<Rightarrow> PulsePointIncident list \<Rightarrow> state \<Rightarrow> state" where
  "closed_step e feed s = fold (process_closed e) (newly_closed (trackedIncidents s) feed) s"

subsection \<open>Step 7: expired incidents (lines 523 to 628)\<close>

text \<open>
  \<^verbatim>\<open>hoursElapsed > 24\<close>, with \<^verbatim>\<open>hoursElapsed\<close> the elapsed milliseconds divided by
  3600000: the elapsed milliseconds exceed 24 times 3600000.
\<close>

definition expired_ids :: "int \<Rightarrow> (string \<times> StoredIncident) list \<Rightarrow> string list" where
  "expired_ids t tracked =
     map fst (filter (\<lambda>(x, d). \<not> closed d \<and> t - lastUpdated d > 24 * (1000 * 60 * 60))
                (object_entries tracked))"

text \<open>
  One round of the expiry loop. The identifiers come from the snapshot's own entries,
  so the lookup finds a record.
\<close>

definition process_expired :: "env \<Rightarrow> string \<Rightarrow> state \<Rightarrow> state" where
  "process_expired e x s =
     (case tracked_lookup (trackedIncidents s) x of
        Undefined \<Rightarrow> s
      | Proto \<Rightarrow> s
      | Own tracked \<Rightarrow>
          if \<not> truthy (messageId tracked) then s
          else
            (let s0 = buildDiscordFields e s;
                 (response, s1) =
                   fetch e (transition_request e (displayIncidentCallType tracked)
                              (or_text (messageId tracked)) ExpiredNotice x) s0
             in case response of
                  Threw \<Rightarrow> s1
                | Response ok b \<Rightarrow>
                    if \<not> ok then s1
                    else (let (t, s2) = now e s1;
                              s3 = kv_put (incident_key x)
                                     (tracked\<lparr>closed := True, lastUpdated := t\<rparr>) s2
                          in s3\<lparr>expiredCount := Suc (expiredCount s3)\<rparr>)))"

definition expired_step :: "env \<Rightarrow> state \<Rightarrow> state" where
  "expired_step e s =
     (let (t, s1) = now e s
      in fold (process_expired e) (expired_ids t (trackedIncidents s1)) s1)"

subsection \<open>Step 8: pruning (lines 631 to 665)\<close>

definition prune_ids :: "int \<Rightarrow> (string \<times> StoredIncident) list \<Rightarrow> string list" where
  "prune_ids t tracked =
     map fst (filter (\<lambda>(x, d). closed d \<and> t - lastUpdated d > 3 * (1000 * 60 * 60 * 24))
                (object_entries tracked))"

definition prune_one :: "string \<Rightarrow> state \<Rightarrow> state" where
  "prune_one x s =
     (let s1 = kv_delete (incident_key x) s in s1\<lparr>prunedCount := Suc (prunedCount s1)\<rparr>)"

definition prune_step :: "env \<Rightarrow> state \<Rightarrow> state" where
  "prune_step e s =
     (let (t, s1) = now e s
      in fold prune_one (prune_ids t (trackedIncidents s1)) s1)"

subsection \<open>The run\<close>

text \<open>
  The steps in the source's order, from the normalized incidents on. A write to the
  store is taken to succeed.
\<close>

definition reconcile :: "env \<Rightarrow> PulsePointIncident list \<Rightarrow> state \<Rightarrow> state" where
  "reconcile e feed s =
     prune_step e (expired_step e (closed_step e feed (open_step e feed
       (new_step e feed (load_step s)))))"

record stats =
  totalIncidents :: nat
  trackedCount :: nat
  newIncidents :: nat
  updatedOpenIncidents :: nat
  closedIncidents :: nat
  expiredIncidents :: nat
  prunedIncidents :: nat

definition run_stats :: "PulsePointIncident list \<Rightarrow> state \<Rightarrow> stats" where
  "run_stats feed s =
     \<lparr>totalIncidents = length feed, trackedCount = length (trackedIncidents s),
      newIncidents = newCount s, updatedOpenIncidents = updateCount s,
      closedIncidents = closedCount s, expiredIncidents = expiredCount s,
      prunedIncidents = prunedCount s\<rparr>"

text \<open>A state with nothing in it but the store: the start of a first run.\<close>

definition initial :: "(string \<times> StoredIncident) list \<Rightarrow> state" where
  "initial st =
     \<lparr>kv = st, ops = [], calls = [], ticks = 0, trackedIncidents = [], newCount = 0,
      updateCount = 0, closedCount = 0, expiredCount = 0, prunedCount = 0\<rparr>"

section \<open>Notions the properties are stated with\<close>

text \<open>
  A store is well formed when every key with the prefix \<^verbatim>\<open>incident:\<close> holds the record
  of the identifier it names, as every write of the program does.
\<close>

definition wf_store :: "(string \<times> StoredIncident) list \<Rightarrow> bool" where
  "wf_store st =
     list_all (\<lambda>(k, r). prefix ''incident:'' k \<longrightarrow> k = incident_key (pulsepointId r)) st"

text \<open>
  The effect of one logged write, and the property that a log of writes, replayed from
  a store, never puts an open record over a closed one.
\<close>

fun apply_op :: "kv_op \<Rightarrow> (string \<times> StoredIncident) list \<Rightarrow> (string \<times> StoredIncident) list" where
  "apply_op (Put k v) st = AList.update k v st"
| "apply_op (Delete k) st = AList.delete k st"

fun closed_monotone :: "(string \<times> StoredIncident) list \<Rightarrow> kv_op list \<Rightarrow> bool" where
  "closed_monotone st [] = True"
| "closed_monotone st (Put k v # rest) =
     ((case map_of st k of Some r \<Rightarrow> closed r \<longrightarrow> closed v | None \<Rightarrow> True)
      \<and> closed_monotone (AList.update k v st) rest)"
| "closed_monotone st (Delete k # rest) = closed_monotone (AList.delete k st) rest"


text \<open>Several runs, one after the other, each with its own environment and feed.\<close>

definition reconcile_all :: "(env \<times> PulsePointIncident list) list \<Rightarrow> state \<Rightarrow> state" where
  "reconcile_all runs s = fold (\<lambda>(e, feed). reconcile e feed) runs s"

text \<open>The identifiers each transition class selects.\<close>

definition new_class :: "(string \<times> StoredIncident) list \<Rightarrow> PulsePointIncident list \<Rightarrow> string list" where
  "new_class tracked feed = map ID (new_ones tracked feed)"

definition updated_class :: "(string \<times> StoredIncident) list \<Rightarrow> PulsePointIncident list \<Rightarrow> string list" where
  "updated_class tracked feed = map ID (open_incidents tracked feed)"

definition closed_class :: "(string \<times> StoredIncident) list \<Rightarrow> PulsePointIncident list \<Rightarrow> string list" where
  "closed_class tracked feed = map ID (newly_closed tracked feed)"

text \<open>A transition that wrote nothing: the store, its log and the snapshot are as before.\<close>

definition untouched :: "state \<Rightarrow> state \<Rightarrow> bool" where
  "untouched s' s \<longleftrightarrow>
     kv s' = kv s \<and> ops s' = ops s \<and> trackedIncidents s' = trackedIncidents s"

text \<open>An answer that reports success, and one that the creation step goes on to store.\<close>

definition ok_response :: "response \<Rightarrow> bool" where
  "ok_response r = (case r of Threw \<Rightarrow> False | Response ok b \<Rightarrow> ok)"

definition stored_response :: "response \<Rightarrow> bool" where
  "stored_response r = (case r of Threw \<Rightarrow> False | Response ok b \<Rightarrow> ok \<and> b \<noteq> Unreadable)"

text \<open>
  The round of a loop for the incident \<open>y\<close> has been made: the log of the calls holds
  a call about \<open>y\<close> with the presentation \<open>p\<close> of that loop and, if the channel
  accepts the calls about \<open>y\<close>, the log of the writes holds a put of a record of \<open>y\<close>
  with the closed flag \<open>c\<close> under the key of \<open>y\<close>.
\<close>

definition round_done ::
  "env \<Rightarrow> (response \<Rightarrow> bool) \<Rightarrow> string \<Rightarrow> presentation \<Rightarrow> bool \<Rightarrow> state \<Rightarrow> bool"
where
  "round_done e acc y p c s \<longleftrightarrow>
     (\<exists>q. q \<in> set (calls s) \<and> footer_id q = y \<and> presentation q = p)
     \<and> ((\<forall>n q. footer_id q = y \<longrightarrow> acc (answer e n q)) \<longrightarrow>
          (\<exists>r. Put (incident_key y) r \<in> set (ops s) \<and> pulsepointId r = y \<and> closed r = c))"

subsection \<open>Notions of the proofs\<close>

text \<open>
  What the steps of a run can change of the snapshot is a message identifier, and only
  from one truthy value to another: the shape of the snapshot, its records without
  their identifiers and with the truthiness of each, stays as loaded.
\<close>

definition shape :: "(string \<times> StoredIncident) list \<Rightarrow> (string \<times> StoredIncident \<times> bool) list" where
  "shape snap = map (\<lambda>(x, r). (x, r\<lparr>messageId := None\<rparr>, truthy (messageId r))) snap"

definition snap_ok :: "(string \<times> StoredIncident) list \<Rightarrow> bool" where
  "snap_ok snap \<longleftrightarrow> distinct (map fst snap) \<and> (\<forall>(x, r)\<in>set snap. pulsepointId r = x)"

definition tracks :: "(string \<times> StoredIncident) list \<Rightarrow> state \<Rightarrow> bool" where
  "tracks snap s \<longleftrightarrow> shape (trackedIncidents s) = shape snap"

text \<open>
  The part of the state the properties speak about: the store, the log of its writes
  and the log of the calls. One round of a loop for the incident \<open>y\<close> makes one call
  about \<open>y\<close> and then, if the answer is accepted, puts a record of \<open>y\<close> with the closed
  flag \<open>c\<close> under the key of \<open>y\<close>; otherwise it leaves the store and its log alone.
\<close>

type_synonym view = "(string \<times> StoredIncident) list \<times> kv_op list \<times> request list"

definition view :: "state \<Rightarrow> view" where
  "view s = (kv s, ops s, calls s)"

definition att :: "(response \<Rightarrow> bool) \<Rightarrow> env \<Rightarrow> string \<Rightarrow> bool \<Rightarrow> view \<Rightarrow> view \<Rightarrow> bool" where
  "att acc e y c v v' \<longleftrightarrow>
     (case v of (st, os, cs) \<Rightarrow> case v' of (st', os', cs') \<Rightarrow>
        (\<exists>q. footer_id q = y \<and> cs' = cs @ [q] \<and>
           (if acc (answer e (length cs) q)
            then \<exists>r. pulsepointId r = y \<and> closed r = c
                   \<and> st' = AList.update (incident_key y) r st
                   \<and> os' = os @ [Put (incident_key y) r]
            else st' = st \<and> os' = os)))"

definition attempt :: "(response \<Rightarrow> bool) \<Rightarrow> env \<Rightarrow> string \<Rightarrow> bool \<Rightarrow> state \<Rightarrow> state \<Rightarrow> bool" where
  "attempt acc e y c s s' = att acc e y c (view s) (view s')"

text \<open>
  The store is what the logged writes make of the initial store, no logged write has
  reopened a closed record, and the store is well formed.
\<close>

definition history :: "(string \<times> StoredIncident) list \<Rightarrow> view \<Rightarrow> bool" where
  "history st0 v \<longleftrightarrow>
     (case v of (kvs, os, cs) \<Rightarrow>
        fold apply_op os st0 = kvs \<and> closed_monotone st0 os \<and> wf_store kvs)"

text \<open>A state later in a run: the two logs have only been added to.\<close>

definition grows :: "state \<Rightarrow> state \<Rightarrow> bool" where
  "grows s s' \<longleftrightarrow> prefix (ops s) (ops s') \<and> prefix (calls s) (calls s')"

text \<open>What a step can leave of the record of \<open>y\<close>.\<close>

definition closed_or_absent :: "string \<Rightarrow> view \<Rightarrow> bool" where
  "closed_or_absent y v =
     (case v of (kvs, os, cs) \<Rightarrow>
        (case map_of kvs (incident_key y) of None \<Rightarrow> True | Some r \<Rightarrow> closed r))"

definition kept :: "string \<Rightarrow> view \<Rightarrow> bool" where
  "kept y v =
     (case v of (kvs, os, cs) \<Rightarrow>
        map_of kvs (incident_key y) \<noteq> None \<or> Delete (incident_key y) \<in> set os)"

definition open_in_store :: "string \<Rightarrow> view \<Rightarrow> bool" where
  "open_in_store y v =
     (case v of (kvs, os, cs) \<Rightarrow> \<exists>r. map_of kvs (incident_key y) = Some r \<and> \<not> closed r)"

subsection \<open>Concrete inputs\<close>

definition demo_incident :: PulsePointIncident where
  "demo_incident =
     \<lparr>ID = ''7'', Closed = Some False, CallReceivedDateTime = Some ''2025-01-01T00:00:00Z'',
      PulsePointIncidentCallType = Some ''ME'',
      DisplayIncidentCallType = Some (Text ''Medical Emergency''),
      FullDisplayAddress = Some ''123 Main St, Vancouver, BC'', Unit = Some []\<rparr>"

definition demo_closed_incident :: PulsePointIncident where
  "demo_closed_incident = demo_incident\<lparr>ID := ''8'', Closed := Some True\<rparr>"

text \<open>An open record with a real message identifier, last updated at time 0.\<close>

definition demo_record :: StoredIncident where
  "demo_record =
     \<lparr>pulsepointId = ''7'', closed = False, messageId = Some ''1234'', lastUpdated = 0,
      callReceived = Some ''2025-01-01T00:00:00Z'',
      displayIncidentCallType = Some (Text ''Medical Emergency'')\<rparr>"

definition demo_store :: "(string \<times> StoredIncident) list" where
  "demo_store = [(incident_key ''7'', demo_record)]"

text \<open>The same record with a fallback identifier, and one with no identifier.\<close>

definition fallback_record :: StoredIncident where
  "fallback_record = demo_record\<lparr>messageId := Some ''incident-7-1000''\<rparr>"

definition bare_record :: StoredIncident where
  "bare_record = demo_record\<lparr>messageId := None\<rparr>"

definition created :: response where
  "created = Response True (Json (JObject (Some ''5678'') None None))"

definition refused :: response where
  "refused = Response False Blank"

text \<open>
  Three environments: every call succeeds; every call is refused; the first call is
  refused and the later ones succeed, 25 hours after time 0.
\<close>

definition env_created :: env where
  "env_created =
     \<lparr>DISCORD_WEBHOOK_URL = ''https://primary'', DISCORD_STANDBY_WEBHOOK_URL = ''https://standby'',
      answer = (\<lambda>n q. created), clock = (\<lambda>n. 1000)\<rparr>"

definition env_refused :: env where
  "env_refused =
     \<lparr>DISCORD_WEBHOOK_URL = ''https://primary'', DISCORD_STANDBY_WEBHOOK_URL = ''https://standby'',
      answer = (\<lambda>n q. refused), clock = (\<lambda>n. 1000)\<rparr>"

definition env_stale :: env where
  "env_stale =
     \<lparr>DISCORD_WEBHOOK_URL = ''https://primary'', DISCORD_STANDBY_WEBHOOK_URL = ''https://standby'',
      answer = (\<lambda>n q. if n = 0 then refused else created), clock = (\<lambda>n. 90000000)\<rparr>"

definition patch_1234 :: "presentation \<Rightarrow> request" where
  "patch_1234 p =
     \<lparr>req_method = PATCH, url = ''https://primary/messages/1234'', presentation = p,
      footer_id = ''7''\<rparr>"

text \<open>The state of a run that has just loaded a store holding the fallback record.\<close>

definition fallback_state :: state where
  "fallback_state = load_step (initial [(incident_key ''7'', fallback_record)])"

definition post_primary :: "presentation \<Rightarrow> request" where
  "post_primary p =
     \<lparr>req_method = POST, url = ''https://primary'', presentation = p, footer_id = ''7''\<rparr>"

text \<open>A store tracking incident 8 as open, and a feed that reports it closed.\<close>

definition closing_store :: "(string \<times> StoredIncident) list" where
  "closing_store = [(incident_key ''8'', demo_record\<lparr>pulsepointId := ''8''\<rparr>)]"

definition bare_store :: "(string \<times> StoredIncident) list" where
  "bare_store = [(incident_key ''7'', bare_record)]"






section \<open>Properties of the decryptor\<close>

lemma length_digest_bytes: "length (digest_bytes d) = 16"
  by (simp add: digest_bytes_def)

lemma lastIndexOf_split:
  assumes "c \<notin> set rest"
  shows "lastIndexOf (pre @ c # rest) c = int (length pre)"
proof -
  have "takeWhile (\<lambda>x. x \<noteq> c) (rev rest @ c # rev pre) = rev rest"
    using assms by (auto simp: takeWhile_tail)
  then show ?thesis by (simp add: lastIndexOf_def)
qed

text \<open>
  C5. The key is the first 32 bytes of the chain of hash blocks, each block the digest
  of the previous block (empty for the first), the passphrase bytes and the salt. One
  block is short of 32 bytes and two reach them, so the chain stops at two blocks; the
  key has exactly 32 bytes.
\<close>

theorem derive_key_hash_chain:
  "derive_key H salt = take 32 (concat (hash_chain H (encode password) salt [] 2))
   \<and> length (concat (hash_chain H (encode password) salt [] 1)) < 32
   \<and> 32 \<le> length (concat (hash_chain H (encode password) salt [] 2))
   \<and> length (derive_key H salt) = 32"
  by (simp add: derive_key_def numeral_2_eq_2 Let_def length_digest_bytes)

text \<open>
  C6, as the claim states it, fails: the passphrase the code assembles does not have 16
  characters.
\<close>

theorem password_not_16_chars: "length password \<noteq> 16"
  by (simp add: password_def char_at_def toLowerCase_def lower_char_def Let_def)

text \<open>
  C6, amended. The passphrase is a fixed constant of exactly 14 characters, the text
  \<^verbatim>\<open>tombrady5rings\<close>.
\<close>

theorem password_is_14_chars: "password = ''tombrady5rings'' \<and> length password = 14"
proof -
  have pw: "password = ''tombrady5rings''" by code_simp
  show ?thesis unfolding pw by simp
qed

text \<open>
  C10, as the claim states it, fails: when the only double quote of the text is its
  first character, the first character is not removed. \<^verbatim>\<open>substring(1, 0)\<close> swaps its
  arguments and returns the first character alone.
\<close>

theorem strip_wrapper_keeps_leading_quote:
  "strip_wrapper (dquote # ''abc'') = [dquote]
   \<and> \<not> prefix (strip_wrapper (dquote # ''abc'')) (drop 1 (dquote # ''abc''))"
  by (simp add: strip_wrapper_def substring_def Let_def lastIndexOf_def dquote_def)

text \<open>
  C10, amended. With no double quote in the text, only the first character is dropped
  and nothing is trimmed from the end. With the last double quote after the first
  character, the result is what stands between the first character and that quote:
  the quote and what follows it are removed. With the only double quote in the first
  place, the result is that quote alone.
\<close>

theorem strip_wrapper_cases:
  assumes "dquote \<notin> set rest"
  shows "strip_wrapper rest = drop 1 rest
         \<and> strip_wrapper (c # mid @ dquote # rest) = mid
         \<and> strip_wrapper (dquote # rest) = [dquote]"
proof -
  have none: "strip_wrapper rest = drop 1 rest"
    using assms by (cases rest) (simp_all add: strip_wrapper_def lastIndexOf_def substring_def Let_def)
  have between: "strip_wrapper (c # mid @ dquote # rest) = mid"
    using lastIndexOf_split [OF assms, of "c # mid"]
    by (simp add: strip_wrapper_def substring_def Let_def)
  have leading: "strip_wrapper (dquote # rest) = [dquote]"
    using lastIndexOf_split [OF assms, of "[]"]
    by (simp add: strip_wrapper_def substring_def Let_def)
  from none between leading show ?thesis by simp
qed

theorem strip_wrapper_cases_witness:
  "dquote \<notin> set ''ab''
   \<and> strip_wrapper ''ab'' = ''b''
   \<and> strip_wrapper (CHR ''x'' # ''{}'' @ dquote # ''ab'') = ''{}''
   \<and> strip_wrapper (dquote # ''ab'') = [dquote]"
proof -
  have h: "dquote \<notin> set ''ab''" by (simp add: dquote_def)
  show ?thesis using h strip_wrapper_cases [OF h, of "CHR ''x''" "''{}''"] by simp
qed

section \<open>Properties of the normalizer\<close>

text \<open>
  C8 at a call-type code that names a member of \<^verbatim>\<open>Object.prototype\<close>: the lookup
  finds the inherited member, which is truthy, so the display value is that member
  and not the text \<^verbatim>\<open>Unknown\<close>. The same holds for a dispatch-status code.
\<close>

theorem unrecognized_code_not_unknown:
  "mapIncidentCallType (Some ''constructor'') = Inherited ''constructor''
   \<and> mapDispatchStatus (Some ''constructor'') = Inherited ''constructor''
   \<and> mapIncidentCallType (Some ''constructor'') \<noteq> Text ''Unknown''"
  by (simp add: mapIncidentCallType_def mapDispatchStatus_def object_lookup_def or_unknown_def
      typeMap_def statusMap_def object_prototype_names_def)

text \<open>
  The rest of the normalizer's contract holds: active incidents are tagged open, recent
  ones closed, in that order, and a code that is neither in the table nor the name of
  an inherited member gives \<^verbatim>\<open>Unknown\<close>, as a missing code does.
\<close>

lemma process_feed_tags_in_order:
  "process_feed \<lparr>incidents = Some \<lparr>active = Some a, recent = Some r\<rparr>\<rparr> =
     map (\<lambda>i. display_incident (i\<lparr>Closed := Some False\<rparr>)) a
     @ map (\<lambda>i. display_incident (i\<lparr>Closed := Some True\<rparr>)) r"
  by (simp add: process_feed_def or_empty_def Let_def)

lemma display_incident_fields:
  "Closed (display_incident i) = Closed i \<and> ID (display_incident i) = ID i
   \<and> DisplayIncidentCallType (display_incident i)
      = Some (mapIncidentCallType (PulsePointIncidentCallType i))
   \<and> Unit (display_incident i) = map_option (map display_unit) (Unit i)"
  by (simp add: display_incident_def Let_def split: option.splits)

lemma unknown_unless_inherited:
  assumes "code \<notin> set object_prototype_names"
  shows "map_of typeMap code = None \<Longrightarrow> mapIncidentCallType (Some code) = Text ''Unknown''"
    and "map_of statusMap code = None \<Longrightarrow> mapDispatchStatus (Some code) = Text ''Unknown''"
    and "mapIncidentCallType None = Text ''Unknown''"
    and "mapDispatchStatus None = Text ''Unknown''"
  using assms
  by (simp_all add: mapIncidentCallType_def mapDispatchStatus_def object_lookup_def or_unknown_def)


section \<open>The store and the snapshot\<close>

lemma incident_key_inject [simp]: "incident_key x = incident_key y \<longleftrightarrow> x = y"
  by (simp add: incident_key_def)

lemma prefix_incident_key [simp]: "prefix ''incident:'' (incident_key x)"
  by (simp add: incident_key_def)

lemma set_update_subset: "set (AList.update k v al) \<subseteq> insert (k, v) (set al)"
  by (induction al) auto

lemma set_delete_subset: "set (AList.delete k al) \<subseteq> set al"
  by (induction al) auto

lemma wf_store_update:
  "wf_store st \<Longrightarrow> pulsepointId r = x \<Longrightarrow> wf_store (AList.update (incident_key x) r st)"
  using set_update_subset [of "incident_key x" r st]
  by (auto simp: wf_store_def list_all_iff)

lemma wf_store_delete: "wf_store st \<Longrightarrow> wf_store (AList.delete k st)"
  using set_delete_subset [of k st] by (auto simp: wf_store_def list_all_iff)

lemma wf_store_lookup:
  "wf_store st \<Longrightarrow> map_of st (incident_key x) = Some r \<Longrightarrow> pulsepointId r = x"
  by (auto simp: wf_store_def list_all_iff dest!: map_of_SomeD)

lemma wf_store_key:
  "wf_store st \<Longrightarrow> map_of st k = Some r \<Longrightarrow> prefix ''incident:'' k \<Longrightarrow> k = incident_key (pulsepointId r)"
  by (auto simp: wf_store_def list_all_iff dest!: map_of_SomeD)

lemma fold_file_record:
  assumes "wf_store st" and "\<forall>k\<in>set ks. prefix ''incident:'' k"
  shows "map_of (fold (file_record st) ks acc) x =
         (if incident_key x \<in> set ks \<and> map_of st (incident_key x) \<noteq> None
          then map_of st (incident_key x) else map_of acc x)"
  using assms(2)
proof (induction ks arbitrary: acc)
  case Nil
  then show ?case by simp
next
  case (Cons k ks)
  show ?case
  proof (cases "map_of st k")
    case None
    then show ?thesis using Cons by (auto simp: file_record_def)
  next
    case (Some d)
    with Cons.prems assms(1) have k: "k = incident_key (pulsepointId d)"
      by (auto dest: wf_store_key)
    show ?thesis using Cons Some k
      by (auto simp: file_record_def update_conv')
  qed
qed

lemma map_of_load_tracked:
  assumes "wf_store st"
  shows "map_of (load_tracked st) x = map_of st (incident_key x)"
proof -
  have "incident_key x \<notin> fst ` set st \<Longrightarrow> map_of st (incident_key x) = None"
    by (simp add: map_of_eq_None_iff)
  then have none: "incident_key x \<notin> fst ` set st \<Longrightarrow> None = map_of st (incident_key x)"
    by simp
  show ?thesis
    unfolding load_tracked_def kv_list_def
    by (subst fold_file_record [OF assms]) (auto simp: none)
qed

lemma distinct_fold_file_record:
  "distinct (map fst acc) \<Longrightarrow> distinct (map fst (fold (file_record st) ks acc))"
  by (induction ks arbitrary: acc) (auto simp: file_record_def distinct_update split: option.splits)

lemma distinct_load_tracked: "distinct (map fst (load_tracked st))"
  by (simp add: load_tracked_def distinct_fold_file_record)

lemma ids_fold_file_record:
  "\<forall>(x, r)\<in>set acc. pulsepointId r = x \<Longrightarrow>
   \<forall>(x, r)\<in>set (fold (file_record st) ks acc). pulsepointId r = x"
proof (induction ks arbitrary: acc)
  case Nil
  then show ?case by simp
next
  case (Cons k ks)
  have "\<forall>(x, r)\<in>set (file_record st k acc). pulsepointId r = x"
    using Cons.prems set_update_subset
    by (fastforce simp: file_record_def split: option.splits)
  then show ?case using Cons.IH by simp
qed

lemma ids_load_tracked: "(x, r) \<in> set (load_tracked st) \<Longrightarrow> pulsepointId r = x"
  using ids_fold_file_record [of "[]" st "kv_list st ''incident:''"]
  by (auto simp: load_tracked_def)

lemma replay_append: "fold apply_op (a @ b) st = fold apply_op b (fold apply_op a st)"
  by simp

lemma closed_monotone_append:
  "closed_monotone st (a @ b) \<longleftrightarrow> closed_monotone st a \<and> closed_monotone (fold apply_op a st) b"
  by (induction st a rule: closed_monotone.induct) auto

section \<open>One round of each loop\<close>

lemma buildDiscordFields_tick [simp]: "buildDiscordFields e s = s\<lparr>ticks := Suc (ticks s)\<rparr>"
  by (simp add: buildDiscordFields_def now_def)

lemma tracked_lookup_Some [simp]: "map_of tracked x = Some t \<Longrightarrow> tracked_lookup tracked x = Own t"
  by (simp add: tracked_lookup_def)

lemma tracked_lookup_None:
  "map_of tracked x = None \<Longrightarrow>
   tracked_lookup tracked x = (if x \<in> set object_prototype_names then Proto else Undefined)"
  by (simp add: tracked_lookup_def)

lemma tracked_lookup_Own: "tracked_lookup tracked x = Own t \<longleftrightarrow> map_of tracked x = Some t"
  by (simp add: tracked_lookup_def split: option.splits)

lemma tracked_lookup_Undefined:
  "tracked_lookup tracked x = Undefined \<longleftrightarrow> map_of tracked x = None \<and> x \<notin> set object_prototype_names"
  by (simp add: tracked_lookup_def split: option.splits)

lemma attempt_iff:
  "attempt acc e y c s s' \<longleftrightarrow>
     (\<exists>q. footer_id q = y \<and> calls s' = calls s @ [q] \<and>
        (if acc (answer e (length (calls s)) q)
         then \<exists>r. pulsepointId r = y \<and> closed r = c
                \<and> kv s' = AList.update (incident_key y) r (kv s)
                \<and> ops s' = ops s @ [Put (incident_key y) r]
         else kv s' = kv s \<and> ops s' = ops s))"
  by (simp add: attempt_def att_def view_def)

lemma process_new_tracked [simp]:
  "trackedIncidents (process_new e inc s) = trackedIncidents s"
  by (simp add: process_new_def now_def fetch_def kv_put_def Let_def split: response.splits)

lemma process_new_attempt:
  "attempt stored_response e (ID inc) False s (process_new e inc s)"
  unfolding attempt_iff
  by (rule exI [of _ "\<lparr>req_method = POST, url = webhook_for e (DisplayIncidentCallType inc) @ ''?wait=true'',
                      presentation = Alert, footer_id = ID inc\<rparr>"])
     (simp add: process_new_def now_def fetch_def kv_put_def Let_def stored_response_def
           split: response.splits)

lemma shape_map_entry:
  "map_of snap x = Some t \<Longrightarrow> truthy (messageId t) \<Longrightarrow> m \<noteq> [] \<Longrightarrow>
   shape (AList.map_entry x (\<lambda>r. r\<lparr>messageId := Some m\<rparr>) snap) = shape snap"
  by (induction snap) (auto simp: shape_def truthy_def)

lemma map_of_shape:
  "map_of (shape snap) x = map_option (\<lambda>r. (r\<lparr>messageId := None\<rparr>, truthy (messageId r))) (map_of snap x)"
  by (induction snap) (auto simp: shape_def)

lemma shape_lookup:
  assumes "shape snap' = shape snap" and "map_of snap' x = Some r'"
  shows "\<exists>r. map_of snap x = Some r \<and> r\<lparr>messageId := None\<rparr> = r'\<lparr>messageId := None\<rparr>
             \<and> truthy (messageId r) = truthy (messageId r')"
proof -
  have "map_of (shape snap) x = map_of (shape snap') x" using assms(1) by simp
  then show ?thesis using assms(2) by (auto simp: map_of_shape)
qed

lemma adopt_from_shape:
  "map_of (trackedIncidents s) x = Some t \<Longrightarrow> truthy (messageId t) \<Longrightarrow>
   shape (trackedIncidents (adopt_from x b s)) = shape (trackedIncidents s)"
  by (auto simp: adopt_from_def adopt_id_def shape_map_entry truthy_def or_text_def
           split: body.splits json.splits option.splits)

lemma adopt_from_fields [simp]:
  "kv (adopt_from x b s) = kv s" "ops (adopt_from x b s) = ops s"
  "calls (adopt_from x b s) = calls s" "ticks (adopt_from x b s) = ticks s"
  by (auto simp: adopt_from_def adopt_id_def split: body.splits json.splits)

lemma adopt_from_lookup:
  "map_of (trackedIncidents s) x = Some t \<Longrightarrow>
   \<exists>t'. map_of (trackedIncidents (adopt_from x b s)) x = Some t'
        \<and> closed t' = closed t \<and> pulsepointId t' = pulsepointId t"
  by (auto simp: adopt_from_def adopt_id_def map_of_map_entry split: body.splits json.splits)

lemma process_open_shape:
  "shape (trackedIncidents (process_open e inc s)) = shape (trackedIncidents s)"
proof (cases "map_of (trackedIncidents s) (ID inc)")
  case None
  then show ?thesis by (simp add: process_open_def tracked_lookup_None)
next
  case (Some t)
  show ?thesis
  proof (cases "truthy (messageId t)")
    case False
    then show ?thesis using Some by (simp add: process_open_def)
  next
    case True
    have a: "\<And>b s1. trackedIncidents s1 = trackedIncidents s \<Longrightarrow>
              shape (trackedIncidents (adopt_from (ID inc) b s1)) = shape (trackedIncidents s)"
      using adopt_from_shape [of _ "ID inc" t] Some True by simp
    have u: "\<And>s2. trackedIncidents (store_updated e (ID inc) s2) = trackedIncidents s2"
      by (simp add: store_updated_def now_def kv_put_def Let_def split: option.splits)
    show ?thesis using Some True
      by (simp add: process_open_def fetch_def Let_def a u split: response.splits)
  qed
qed


lemma store_updated_effect:
  assumes "map_of (trackedIncidents s2) x = Some t'"
  shows "kv (store_updated e x s2) = AList.update (incident_key x) (t'\<lparr>lastUpdated := clock e (ticks s2)\<rparr>) (kv s2)"
    and "ops (store_updated e x s2) = ops s2 @ [Put (incident_key x) (t'\<lparr>lastUpdated := clock e (ticks s2)\<rparr>)]"
    and "calls (store_updated e x s2) = calls s2"
  using assms by (simp_all add: store_updated_def now_def kv_put_def Let_def)

lemma process_open_attempt:
  assumes "map_of (trackedIncidents s) (ID inc) = Some t" and "pulsepointId t = ID inc"
  shows "if truthy (messageId t)
         then attempt ok_response e (ID inc) (closed t) s (process_open e inc s)
         else process_open e inc s = s"
proof (cases "truthy (messageId t)")
  case False
  then show ?thesis using assms by (simp add: process_open_def)
next
  case True
  define base where "base = webhook_for e (DisplayIncidentCallType inc)"
  define q where "q = (if \<not> prefix ''incident-'' (or_text (messageId t))
     then \<lparr>req_method = PATCH, url = base @ ''/messages/'' @ or_text (messageId t),
           presentation = Alert, footer_id = ID inc\<rparr>
     else \<lparr>req_method = POST, url = base, presentation = Alert, footer_id = ID inc\<rparr>)"
  define s1 where "s1 = s\<lparr>ticks := Suc (ticks s), calls := calls s @ [q]\<rparr>"
  have s1: "trackedIncidents s1 = trackedIncidents s" "kv s1 = kv s" "ops s1 = ops s"
    "calls s1 = calls s @ [q]"
    by (simp_all add: s1_def)
  have foot: "footer_id q = ID inc" by (simp add: q_def)
  have po: "process_open e inc s =
      (case answer e (length (calls s)) q of
         Threw \<Rightarrow> s1
       | Response ok b \<Rightarrow>
           if \<not> ok then s1
           else store_updated e (ID inc)
                  (if prefix ''incident-'' (or_text (messageId t))
                   then adopt_from (ID inc) b s1 else s1))"
    using assms True
    by (cases "prefix ''incident-'' (or_text (messageId t))")
       (simp_all add: process_open_def fetch_def Let_def q_def s1_def base_def
             split: response.splits)
  show ?thesis
  proof (cases "answer e (length (calls s)) q")
    case Threw
    then show ?thesis using True foot s1 po
      by (auto simp: attempt_iff ok_response_def)
  next
    case (Response ok b)
    show ?thesis
    proof (cases ok)
      case False
      then show ?thesis using True Response foot s1 po
        by (auto simp: attempt_iff ok_response_def)
    next
      case ok: True
      define s2 where "s2 = (if prefix ''incident-'' (or_text (messageId t))
                             then adopt_from (ID inc) b s1 else s1)"
      have run: "process_open e inc s = store_updated e (ID inc) s2"
        using po Response ok by (simp add: s2_def)
      have s2: "kv s2 = kv s" "ops s2 = ops s" "calls s2 = calls s @ [q]"
        by (simp_all add: s2_def s1)
      obtain t' where t': "map_of (trackedIncidents s2) (ID inc) = Some t'"
        "closed t' = closed t" "pulsepointId t' = pulsepointId t"
        using adopt_from_lookup [of s1 "ID inc" t b] assms(1) s1(1)
        by (cases "prefix ''incident-'' (or_text (messageId t))") (auto simp: s2_def)
      have "attempt ok_response e (ID inc) (closed t) s (process_open e inc s)"
        using Response ok foot t' assms(2) store_updated_effect [OF t'(1), of e]
        unfolding attempt_iff run
        by (intro exI [of _ q]) (auto simp: ok_response_def s2)
      then show ?thesis using True by simp
    qed
  qed
qed

lemma process_closed_tracked [simp]:
  "trackedIncidents (process_closed e inc s) = trackedIncidents s"
  by (simp add: process_closed_def now_def fetch_def kv_put_def Let_def
           split: lookup.splits response.splits)

lemma process_closed_attempt:
  assumes "map_of (trackedIncidents s) (ID inc) = Some t" and "pulsepointId t = ID inc"
  shows "if truthy (messageId t)
         then attempt ok_response e (ID inc) True s (process_closed e inc s)
         else process_closed e inc s = s"
proof (cases "truthy (messageId t)")
  case False
  then show ?thesis using assms by (simp add: process_closed_def)
next
  case True
  define q where "q = transition_request e (DisplayIncidentCallType inc) (or_text (messageId t))
                        ClosedNotice (ID inc)"
  have foot: "footer_id q = ID inc" by (simp add: q_def transition_request_def Let_def)
  have "attempt ok_response e (ID inc) True s (process_closed e inc s)"
    using True assms foot unfolding attempt_iff
    by (intro exI [of _ q])
       (auto simp: process_closed_def now_def fetch_def kv_put_def Let_def ok_response_def q_def
             split: response.splits)
  then show ?thesis using True by simp
qed

lemma process_expired_tracked [simp]:
  "trackedIncidents (process_expired e x s) = trackedIncidents s"
  by (simp add: process_expired_def now_def fetch_def kv_put_def Let_def
           split: lookup.splits response.splits)

lemma process_expired_attempt:
  assumes "map_of (trackedIncidents s) x = Some t" and "pulsepointId t = x"
  shows "if truthy (messageId t)
         then attempt ok_response e x True s (process_expired e x s)
         else process_expired e x s = s"
proof (cases "truthy (messageId t)")
  case False
  then show ?thesis using assms by (simp add: process_expired_def)
next
  case True
  define q where "q = transition_request e (displayIncidentCallType t) (or_text (messageId t))
                        ExpiredNotice x"
  have foot: "footer_id q = x" by (simp add: q_def transition_request_def Let_def)
  have "attempt ok_response e x True s (process_expired e x s)"
    using True assms foot unfolding attempt_iff
    by (intro exI [of _ q])
       (auto simp: process_expired_def now_def fetch_def kv_put_def Let_def ok_response_def q_def
             split: response.splits)
  then show ?thesis using True by simp
qed

section \<open>The snapshot through a run\<close>

lemma core_eq_fields:
  "r\<lparr>messageId := None\<rparr> = r'\<lparr>messageId := None\<rparr> \<Longrightarrow>
   closed r = closed r' \<and> pulsepointId r = pulsepointId r' \<and> lastUpdated r = lastUpdated r'"
  by (cases r; cases r') simp

lemma tracks_lookup:
  assumes "tracks snap s" and "map_of snap x = Some t0"
  shows "\<exists>t. map_of (trackedIncidents s) x = Some t \<and> closed t = closed t0
             \<and> pulsepointId t = pulsepointId t0 \<and> lastUpdated t = lastUpdated t0
             \<and> truthy (messageId t) = truthy (messageId t0)"
proof -
  have "shape snap = shape (trackedIncidents s)"
    using assms(1) by (simp add: tracks_def)
  from shape_lookup [OF this assms(2)] obtain t where
    t: "map_of (trackedIncidents s) x = Some t" "t\<lparr>messageId := None\<rparr> = t0\<lparr>messageId := None\<rparr>"
       "truthy (messageId t) = truthy (messageId t0)"
    by blast
  from core_eq_fields [OF t(2)] t(1,3) show ?thesis by simp
qed

lemma tracks_none:
  assumes "tracks snap s"
  shows "map_of (trackedIncidents s) x = None \<longleftrightarrow> map_of snap x = None"
proof -
  have "map_of (shape (trackedIncidents s)) x = map_of (shape snap) x"
    using assms by (simp add: tracks_def)
  then show ?thesis
    by (cases "map_of (trackedIncidents s) x"; cases "map_of snap x") (simp_all add: map_of_shape)
qed

lemma snap_ok_lookup: "snap_ok snap \<Longrightarrow> map_of snap x = Some t \<Longrightarrow> pulsepointId t = x"
  by (auto simp: snap_ok_def dest!: map_of_SomeD)

lemma snap_ok_member: "snap_ok snap \<Longrightarrow> (x, t) \<in> set snap \<Longrightarrow> map_of snap x = Some t"
  by (simp add: snap_ok_def)

lemma snap_ok_load: "snap_ok (load_tracked st)"
  using ids_load_tracked by (auto simp: snap_ok_def distinct_load_tracked)

lemma tracks_load [simp]: "tracks (load_tracked (kv s)) (load_step s)"
  by (simp add: tracks_def load_step_def)

lemma view_load [simp]: "view (load_step s) = view s"
  by (simp add: view_def load_step_def)

lemma tracks_undefined:
  "tracks snap s \<Longrightarrow>
   tracked_lookup (trackedIncidents s) x = Undefined \<longleftrightarrow> tracked_lookup snap x = Undefined"
  by (simp add: tracked_lookup_Undefined tracks_none)

lemma tracks_new_ones: "tracks snap s \<Longrightarrow> new_ones (trackedIncidents s) feed = new_ones snap feed"
  by (simp add: new_ones_def tracks_undefined)

lemma tracks_closed_flag:
  assumes "tracks snap s"
  shows "map_option closed (map_of (trackedIncidents s) x) = map_option closed (map_of snap x)"
proof (cases "map_of snap x")
  case None
  then show ?thesis using tracks_none [OF assms, of x] by simp
next
  case (Some t0)
  then show ?thesis using tracks_lookup [OF assms Some] by auto
qed

lemma tracks_open_case:
  assumes "tracks snap s"
  shows "(case tracked_lookup (trackedIncidents s) x of
            Undefined \<Rightarrow> False | Proto \<Rightarrow> P | Own t \<Rightarrow> \<not> closed t \<and> P)
         = (case tracked_lookup snap x of
              Undefined \<Rightarrow> False | Proto \<Rightarrow> P | Own t \<Rightarrow> \<not> closed t \<and> P)"
proof (cases "map_of snap x")
  case None
  then show ?thesis using tracks_none [OF assms, of x] by (simp add: tracked_lookup_None)
next
  case (Some t0)
  then show ?thesis using tracks_lookup [OF assms Some] by auto
qed

lemma tracks_open_incidents:
  "tracks snap s \<Longrightarrow> open_incidents (trackedIncidents s) feed = open_incidents snap feed"
  by (simp add: open_incidents_def tracks_open_case)

lemma tracks_newly_closed:
  "tracks snap s \<Longrightarrow> newly_closed (trackedIncidents s) feed = newly_closed snap feed"
  by (simp add: newly_closed_def tracks_open_case)

lemma set_object_entries [simp]: "set (object_entries obj) = set obj"
  by (auto simp: object_entries_def)

lemma insort_key_map:
  "(\<And>y. f' (h y) = f y) \<Longrightarrow> map h (insort_key f x xs) = insort_key f' (h x) (map h xs)"
  by (induction xs) simp_all

lemma sort_key_map:
  assumes "\<And>y. f' (h y) = f y"
  shows "map h (sort_key f xs) = sort_key f' (map h xs)"
proof (induction xs)
  case Nil
  show ?case by simp
next
  case (Cons a xs)
  then show ?case
    using insort_key_map [of f' h f a "sort_key f xs", OF assms] by simp
qed

lemma object_entries_map:
  "object_entries (map (\<lambda>(k, v). (k, g v)) obj) = map (\<lambda>(k, v). (k, g v)) (object_entries obj)"
proof -
  let ?h = "\<lambda>(k, v). (k, g v)"
  have f: "\<And>P. filter (\<lambda>(k, v). P k) (map ?h obj) = map ?h (filter (\<lambda>(k, v). P k) obj)"
    by (induction obj) auto
  have s: "\<And>xs. map ?h (sort_key (\<lambda>(k, v). index_of k) xs)
                 = sort_key (\<lambda>(k, v). index_of k) (map ?h xs)"
    by (rule sort_key_map) auto
  show ?thesis by (simp add: object_entries_def f s)
qed

lemma filter_entries_shape:
  assumes "\<And>x d. P' (x, d\<lparr>messageId := None\<rparr>, truthy (messageId d)) = P (x, d)"
  shows "map fst (filter P (object_entries snap)) = map fst (filter P' (object_entries (shape snap)))"
proof -
  have "\<And>ys. map fst (filter P' (map (\<lambda>(x, r). (x, r\<lparr>messageId := None\<rparr>, truthy (messageId r))) ys))
             = map fst (filter P ys)"
  proof -
    fix ys :: "(string \<times> StoredIncident) list"
    show "map fst (filter P' (map (\<lambda>(x, r). (x, r\<lparr>messageId := None\<rparr>, truthy (messageId r))) ys))
             = map fst (filter P ys)"
      by (induction ys) (auto simp: assms)
  qed
  then show ?thesis
    unfolding shape_def
    using object_entries_map [of "\<lambda>r. (r\<lparr>messageId := None\<rparr>, truthy (messageId r))" snap]
    by simp
qed

lemma expired_ids_shape:
  "expired_ids t snap =
   map fst (filter (\<lambda>(x, d, b). \<not> closed d \<and> t - lastUpdated d > 24 * (1000 * 60 * 60))
              (object_entries (shape snap)))"
  unfolding expired_ids_def by (rule filter_entries_shape) simp

lemma prune_ids_shape:
  "prune_ids t snap =
   map fst (filter (\<lambda>(x, d, b). closed d \<and> t - lastUpdated d > 3 * (1000 * 60 * 60 * 24))
              (object_entries (shape snap)))"
  unfolding prune_ids_def by (rule filter_entries_shape) simp

lemma tracks_expired_ids: "tracks snap s \<Longrightarrow> expired_ids t (trackedIncidents s) = expired_ids t snap"
  by (simp add: expired_ids_shape tracks_def)

lemma tracks_prune_ids: "tracks snap s \<Longrightarrow> prune_ids t (trackedIncidents s) = prune_ids t snap"
  by (simp add: prune_ids_shape tracks_def)

lemma expired_ids_member:
  "x \<in> set (expired_ids t snap) \<Longrightarrow> \<exists>d. (x, d) \<in> set snap \<and> \<not> closed d \<and> t - lastUpdated d > 24 * (1000 * 60 * 60)"
  by (auto simp: expired_ids_def)

lemma prune_ids_member:
  "x \<in> set (prune_ids t snap) \<Longrightarrow> \<exists>d. (x, d) \<in> set snap \<and> closed d \<and> t - lastUpdated d > 3 * (1000 * 60 * 60 * 24)"
  by (auto simp: prune_ids_def)

section \<open>Invariants of the steps\<close>

lemma new_ones_lookup:
  "inc \<in> set (new_ones snap feed) \<Longrightarrow>
   map_of snap (ID inc) = None \<and> ID inc \<notin> set object_prototype_names"
  by (simp add: new_ones_def tracked_lookup_Undefined)

lemma open_incidents_lookup:
  "inc \<in> set (open_incidents snap feed) \<Longrightarrow>
   inc \<in> set feed \<and> Closed inc \<noteq> Some True
   \<and> ((\<exists>t. map_of snap (ID inc) = Some t \<and> \<not> closed t)
      \<or> map_of snap (ID inc) = None \<and> ID inc \<in> set object_prototype_names)"
  by (auto simp: open_incidents_def tracked_lookup_def split: option.splits if_splits)

lemma newly_closed_lookup:
  "inc \<in> set (newly_closed snap feed) \<Longrightarrow>
   inc \<in> set feed \<and> Closed inc = Some True
   \<and> ((\<exists>t. map_of snap (ID inc) = Some t \<and> \<not> closed t)
      \<or> map_of snap (ID inc) = None \<and> ID inc \<in> set object_prototype_names)"
  by (auto simp: newly_closed_def tracked_lookup_def split: option.splits if_splits)

lemma process_open_inherited:
  "map_of (trackedIncidents s) (ID inc) = None \<Longrightarrow> process_open e inc s = s"
  by (simp add: process_open_def tracked_lookup_None)

lemma process_closed_inherited:
  "map_of (trackedIncidents s) (ID inc) = None \<Longrightarrow> process_closed e inc s = s"
  by (simp add: process_closed_def tracked_lookup_None)

lemma view_simps [simp]:
  "view (s\<lparr>ticks := n\<rparr>) = view s"
  "view (s\<lparr>newCount := n\<rparr>) = view s"
  "view (s\<lparr>updateCount := n\<rparr>) = view s"
  "view (s\<lparr>closedCount := n\<rparr>) = view s"
  "view (s\<lparr>expiredCount := n\<rparr>) = view s"
  "view (s\<lparr>prunedCount := n\<rparr>) = view s"
  "view (s\<lparr>trackedIncidents := t\<rparr>) = view s"
  by (simp_all add: view_def)

lemma tracks_simps [simp]:
  "tracks snap (s\<lparr>ticks := n\<rparr>) = tracks snap s"
  "tracks snap (s\<lparr>newCount := n\<rparr>) = tracks snap s"
  "tracks snap (s\<lparr>prunedCount := n\<rparr>) = tracks snap s"
  "tracks snap (kv_delete k s) = tracks snap s"
  by (simp_all add: tracks_def kv_delete_def)

lemma new_step_rule:
  assumes tr: "tracks snap s" and P: "P (view s)"
    and step: "\<And>inc v v'. inc \<in> set feed \<Longrightarrow> Closed inc \<noteq> Some True \<Longrightarrow> isMatch inc \<Longrightarrow>
                 map_of snap (ID inc) = None \<Longrightarrow> P v \<Longrightarrow>
                 att stored_response e (ID inc) False v v' \<Longrightarrow> P v'"
  shows "P (view (new_step e feed s)) \<and> tracks snap (new_step e feed s)"
proof -
  have "P (view (fold (process_new e) (new_ones snap feed) s))
        \<and> tracks snap (fold (process_new e) (new_ones snap feed) s)"
  proof (rule fold_invariant [where Q = "\<lambda>inc. inc \<in> set (new_ones snap feed)"])
    show "P (view s) \<and> tracks snap s" using tr P by simp
  next
    fix inc s1
    assume inc: "inc \<in> set (new_ones snap feed)" and inv: "P (view s1) \<and> tracks snap s1"
    have "att stored_response e (ID inc) False (view s1) (view (process_new e inc s1))"
      using process_new_attempt [of e inc s1] by (simp add: attempt_def)
    then have "P (view (process_new e inc s1))"
      using step [of inc "view s1"] inc inv new_ones_lookup [OF inc] by (auto simp: new_ones_def)
    then show "P (view (process_new e inc s1)) \<and> tracks snap (process_new e inc s1)"
      using inv by (simp add: tracks_def)
  qed simp
  then show ?thesis
    using tr by (simp add: new_step_def tracks_new_ones Let_def)
qed

lemma open_step_rule:
  assumes ok: "snap_ok snap" and tr: "tracks snap s" and P: "P (view s)"
    and step: "\<And>inc t v v'. inc \<in> set feed \<Longrightarrow> Closed inc \<noteq> Some True \<Longrightarrow>
                 map_of snap (ID inc) = Some t \<Longrightarrow> \<not> closed t \<Longrightarrow> truthy (messageId t) \<Longrightarrow>
                 P v \<Longrightarrow> att ok_response e (ID inc) False v v' \<Longrightarrow> P v'"
  shows "P (view (open_step e feed s)) \<and> tracks snap (open_step e feed s)"
proof -
  have "P (view (fold (process_open e) (open_incidents snap feed) s))
        \<and> tracks snap (fold (process_open e) (open_incidents snap feed) s)"
  proof (rule fold_invariant [where Q = "\<lambda>inc. inc \<in> set (open_incidents snap feed)"])
    show "P (view s) \<and> tracks snap s" using tr P by simp
  next
    fix inc s1
    assume inc: "inc \<in> set (open_incidents snap feed)" and inv: "P (view s1) \<and> tracks snap s1"
    from open_incidents_lookup [OF inc] have feed: "inc \<in> set feed" "Closed inc \<noteq> Some True"
      and sel: "(\<exists>t. map_of snap (ID inc) = Some t \<and> \<not> closed t)
                \<or> map_of snap (ID inc) = None \<and> ID inc \<in> set object_prototype_names"
      by simp_all
    have "P (view (process_open e inc s1))"
    proof (cases "map_of snap (ID inc)")
      case None
      then have "map_of (trackedIncidents s1) (ID inc) = None"
        using tracks_none [of snap s1 "ID inc"] inv by simp
      then show ?thesis using process_open_inherited [of s1 inc e] inv by simp
    next
      case (Some t0)
      then have t0: "map_of snap (ID inc) = Some t0" "\<not> closed t0" using sel by auto
      from tracks_lookup [OF _ t0(1)] inv obtain t where
        t: "map_of (trackedIncidents s1) (ID inc) = Some t" "closed t = closed t0"
           "pulsepointId t = pulsepointId t0" "truthy (messageId t) = truthy (messageId t0)"
        by blast
      have pid: "pulsepointId t = ID inc"
        using snap_ok_lookup [OF ok t0(1)] t(3) by simp
      show ?thesis
      proof (cases "truthy (messageId t)")
        case True
        then have "att ok_response e (ID inc) False (view s1) (view (process_open e inc s1))"
          using process_open_attempt [OF t(1) pid, of e] t(2) t0(2) by (simp add: attempt_def)
        then show ?thesis
          using step [OF feed t0 _ _ , of "view s1"] True t(4) inv by simp
      next
        case False
        then show ?thesis using process_open_attempt [OF t(1) pid, of e] inv by simp
      qed
    qed
    then show "P (view (process_open e inc s1)) \<and> tracks snap (process_open e inc s1)"
      using inv process_open_shape [of e inc s1] by (simp add: tracks_def)
  qed simp
  then show ?thesis
    using tr by (simp add: open_step_def tracks_open_incidents)
qed

lemma closed_step_rule:
  assumes ok: "snap_ok snap" and tr: "tracks snap s" and P: "P (view s)"
    and step: "\<And>inc t v v'. inc \<in> set feed \<Longrightarrow> Closed inc = Some True \<Longrightarrow>
                 map_of snap (ID inc) = Some t \<Longrightarrow> \<not> closed t \<Longrightarrow> truthy (messageId t) \<Longrightarrow>
                 P v \<Longrightarrow> att ok_response e (ID inc) True v v' \<Longrightarrow> P v'"
  shows "P (view (closed_step e feed s)) \<and> tracks snap (closed_step e feed s)"
proof -
  have "P (view (fold (process_closed e) (newly_closed snap feed) s))
        \<and> tracks snap (fold (process_closed e) (newly_closed snap feed) s)"
  proof (rule fold_invariant [where Q = "\<lambda>inc. inc \<in> set (newly_closed snap feed)"])
    show "P (view s) \<and> tracks snap s" using tr P by simp
  next
    fix inc s1
    assume inc: "inc \<in> set (newly_closed snap feed)" and inv: "P (view s1) \<and> tracks snap s1"
    from newly_closed_lookup [OF inc] have feed: "inc \<in> set feed" "Closed inc = Some True"
      and sel: "(\<exists>t. map_of snap (ID inc) = Some t \<and> \<not> closed t)
                \<or> map_of snap (ID inc) = None \<and> ID inc \<in> set object_prototype_names"
      by simp_all
    have "P (view (process_closed e inc s1))"
    proof (cases "map_of snap (ID inc)")
      case None
      then have "map_of (trackedIncidents s1) (ID inc) = None"
        using tracks_none [of snap s1 "ID inc"] inv by simp
      then show ?thesis using process_closed_inherited [of s1 inc e] inv by simp
    next
      case (Some t0)
      then have t0: "map_of snap (ID inc) = Some t0" "\<not> closed t0" using sel by auto
      from tracks_lookup [OF _ t0(1)] inv obtain t where
        t: "map_of (trackedIncidents s1) (ID inc) = Some t" "closed t = closed t0"
           "pulsepointId t = pulsepointId t0" "truthy (messageId t) = truthy (messageId t0)"
        by blast
      have pid: "pulsepointId t = ID inc"
        using snap_ok_lookup [OF ok t0(1)] t(3) by simp
      show ?thesis
      proof (cases "truthy (messageId t)")
        case True
        then have "att ok_response e (ID inc) True (view s1) (view (process_closed e inc s1))"
          using process_closed_attempt [OF t(1) pid, of e] by (simp add: attempt_def)
        then show ?thesis
          using step [OF feed t0 _ _ , of "view s1"] True t(4) inv by simp
      next
        case False
        then show ?thesis using process_closed_attempt [OF t(1) pid, of e] inv by simp
      qed
    qed
    then show "P (view (process_closed e inc s1)) \<and> tracks snap (process_closed e inc s1)"
      using inv by (simp add: tracks_def)
  qed simp
  then show ?thesis
    using tr by (simp add: closed_step_def tracks_newly_closed)
qed

lemma expired_step_rule:
  assumes ok: "snap_ok snap" and tr: "tracks snap s" and P: "P (view s)"
    and step: "\<And>y t v v'. map_of snap y = Some t \<Longrightarrow> \<not> closed t \<Longrightarrow> truthy (messageId t) \<Longrightarrow>
                 P v \<Longrightarrow> att ok_response e y True v v' \<Longrightarrow> P v'"
  shows "P (view (expired_step e s)) \<and> tracks snap (expired_step e s)"
proof -
  define s0 where "s0 = s\<lparr>ticks := Suc (ticks s)\<rparr>"
  define ids where "ids = expired_ids (clock e (ticks s)) snap"
  have "P (view (fold (process_expired e) ids s0)) \<and> tracks snap (fold (process_expired e) ids s0)"
  proof (rule fold_invariant [where Q = "\<lambda>y. y \<in> set ids"])
    show "P (view s0) \<and> tracks snap s0" using tr P by (simp add: s0_def)
  next
    fix y s1
    assume y: "y \<in> set ids" and inv: "P (view s1) \<and> tracks snap s1"
    from y obtain t0 where t0: "map_of snap y = Some t0" "\<not> closed t0"
      using expired_ids_member [of y "clock e (ticks s)" snap] snap_ok_member [OF ok]
      unfolding ids_def by blast
    from tracks_lookup [OF _ t0(1)] inv obtain t where
      t: "map_of (trackedIncidents s1) y = Some t" "closed t = closed t0"
         "pulsepointId t = pulsepointId t0" "truthy (messageId t) = truthy (messageId t0)"
      by blast
    have pid: "pulsepointId t = y"
      using snap_ok_lookup [OF ok t0(1)] t(3) by simp
    have "P (view (process_expired e y s1))"
    proof (cases "truthy (messageId t)")
      case True
      then have "att ok_response e y True (view s1) (view (process_expired e y s1))"
        using process_expired_attempt [OF t(1) pid, of e] by (simp add: attempt_def)
      then show ?thesis
        using step [OF t0 _ _ , of "view s1"] True t(4) inv by simp
    next
      case False
      then show ?thesis using process_expired_attempt [OF t(1) pid, of e] inv by simp
    qed
    then show "P (view (process_expired e y s1)) \<and> tracks snap (process_expired e y s1)"
      using inv by (simp add: tracks_def)
  qed simp
  then show ?thesis
    using tr by (simp add: expired_step_def now_def tracks_expired_ids s0_def ids_def)
qed

lemma prune_step_rule:
  assumes ok: "snap_ok snap" and tr: "tracks snap s" and P: "P (view s)"
    and step: "\<And>y t st os cs. map_of snap y = Some t \<Longrightarrow> closed t \<Longrightarrow> P (st, os, cs) \<Longrightarrow>
                 P (AList.delete (incident_key y) st, os @ [Delete (incident_key y)], cs)"
  shows "P (view (prune_step e s)) \<and> tracks snap (prune_step e s)"
proof -
  define s0 where "s0 = s\<lparr>ticks := Suc (ticks s)\<rparr>"
  define ids where "ids = prune_ids (clock e (ticks s)) snap"
  have "P (view (fold prune_one ids s0)) \<and> tracks snap (fold prune_one ids s0)"
  proof (rule fold_invariant [where Q = "\<lambda>y. y \<in> set ids"])
    show "P (view s0) \<and> tracks snap s0" using tr P by (simp add: s0_def)
  next
    fix y s1
    assume y: "y \<in> set ids" and inv: "P (view s1) \<and> tracks snap s1"
    from y obtain t0 where t0: "map_of snap y = Some t0" "closed t0"
      using prune_ids_member [of y "clock e (ticks s)" snap] snap_ok_member [OF ok]
      unfolding ids_def by blast
    have "view (prune_one y s1)
          = (AList.delete (incident_key y) (kv s1), ops s1 @ [Delete (incident_key y)], calls s1)"
      by (simp add: prune_one_def kv_delete_def view_def Let_def)
    then show "P (view (prune_one y s1)) \<and> tracks snap (prune_one y s1)"
      using step [OF t0, of "kv s1" "ops s1" "calls s1"] inv
      by (simp add: view_def prune_one_def Let_def)
  qed simp
  then show ?thesis
    using tr by (simp add: prune_step_def now_def tracks_prune_ids s0_def ids_def)
qed

lemma reconcile_rule:
  assumes P: "P (view s)"
    and new: "\<And>inc v v'. inc \<in> set feed \<Longrightarrow> Closed inc \<noteq> Some True \<Longrightarrow> isMatch inc \<Longrightarrow>
                 map_of (load_tracked (kv s)) (ID inc) = None \<Longrightarrow> P v \<Longrightarrow>
                 att stored_response e (ID inc) False v v' \<Longrightarrow> P v'"
    and upd: "\<And>inc t v v'. inc \<in> set feed \<Longrightarrow> Closed inc \<noteq> Some True \<Longrightarrow>
                 map_of (load_tracked (kv s)) (ID inc) = Some t \<Longrightarrow> \<not> closed t \<Longrightarrow>
                 truthy (messageId t) \<Longrightarrow> P v \<Longrightarrow>
                 att ok_response e (ID inc) False v v' \<Longrightarrow> P v'"
    and cls: "\<And>inc t v v'. inc \<in> set feed \<Longrightarrow> Closed inc = Some True \<Longrightarrow>
                 map_of (load_tracked (kv s)) (ID inc) = Some t \<Longrightarrow> \<not> closed t \<Longrightarrow>
                 truthy (messageId t) \<Longrightarrow> P v \<Longrightarrow>
                 att ok_response e (ID inc) True v v' \<Longrightarrow> P v'"
    and exp: "\<And>y t v v'. map_of (load_tracked (kv s)) y = Some t \<Longrightarrow> \<not> closed t \<Longrightarrow>
                 truthy (messageId t) \<Longrightarrow> P v \<Longrightarrow> att ok_response e y True v v' \<Longrightarrow> P v'"
    and prn: "\<And>y t st os cs. map_of (load_tracked (kv s)) y = Some t \<Longrightarrow> closed t \<Longrightarrow>
                 P (st, os, cs) \<Longrightarrow>
                 P (AList.delete (incident_key y) st, os @ [Delete (incident_key y)], cs)"
  shows "P (view (reconcile e feed s))"
proof -
  define snap where "snap = load_tracked (kv s)"
  have ok: "snap_ok snap" by (simp add: snap_def snap_ok_load)
  define s3 where "s3 = load_step s"
  have 3: "P (view s3) \<and> tracks snap s3" using P by (simp add: s3_def snap_def)
  define s4 where "s4 = new_step e feed s3"
  have 4: "P (view s4) \<and> tracks snap s4"
    unfolding s4_def using 3 new [folded snap_def]
    by (intro new_step_rule [where P = P]) blast+
  define s5 where "s5 = open_step e feed s4"
  have 5: "P (view s5) \<and> tracks snap s5"
    unfolding s5_def using 4 ok upd [folded snap_def]
    by (intro open_step_rule [where P = P]) blast+
  define s6 where "s6 = closed_step e feed s5"
  have 6: "P (view s6) \<and> tracks snap s6"
    unfolding s6_def using 5 ok cls [folded snap_def]
    by (intro closed_step_rule [where P = P]) blast+
  define s7 where "s7 = expired_step e s6"
  have 7: "P (view s7) \<and> tracks snap s7"
    unfolding s7_def using 6 ok exp [folded snap_def]
    by (intro expired_step_rule [where P = P]) blast+
  have "P (view (prune_step e s7)) \<and> tracks snap (prune_step e s7)"
    using 7 ok prn [folded snap_def]
    by (intro prune_step_rule [where P = P]) blast+
  then show ?thesis
    by (simp add: reconcile_def s7_def s6_def s5_def s4_def s3_def)
qed

lemma att_other_key:
  "att acc e y c (st, os, cs) (st', os', cs') \<Longrightarrow> k \<noteq> incident_key y \<Longrightarrow> map_of st' k = map_of st k"
  by (auto simp: att_def update_conv' split: if_splits)

lemma att_same_key:
  "att acc e y c (st, os, cs) (st', os', cs') \<Longrightarrow>
   map_of st' (incident_key y) = map_of st (incident_key y)
   \<or> (\<exists>r. map_of st' (incident_key y) = Some r \<and> closed r = c \<and> pulsepointId r = y)"
  by (auto simp: att_def update_conv' split: if_splits)

lemma att_ops:
  "att acc e y c (st, os, cs) (st', os', cs') \<Longrightarrow>
   (os' = os \<and> st' = st)
   \<or> (\<exists>r. os' = os @ [Put (incident_key y) r] \<and> closed r = c \<and> pulsepointId r = y
          \<and> st' = AList.update (incident_key y) r st)"
  by (auto simp: att_def split: if_splits)

lemma att_calls:
  "att acc e y c (st, os, cs) (st', os', cs') \<Longrightarrow> \<exists>q. cs' = cs @ [q] \<and> footer_id q = y"
  by (auto simp: att_def)

lemma att_accepted:
  "att acc e y c (st, os, cs) (st', os', cs') \<Longrightarrow> \<forall>n q. acc (answer e n q) \<Longrightarrow>
   \<exists>r. map_of st' (incident_key y) = Some r \<and> closed r = c \<and> pulsepointId r = y"
  by (auto simp: att_def update_conv')


lemma att_wf:
  "att acc e y c (st, os, cs) (st', os', cs') \<Longrightarrow> wf_store st \<Longrightarrow> wf_store st'"
  by (auto simp: att_def wf_store_update split: if_splits)

lemma view_initial [simp]: "view (initial st) = (st, [], [])"
  by (simp add: view_def initial_def)

lemma kv_initial [simp]: "kv (initial st) = st"
  by (simp add: initial_def)

section \<open>Refused calls\<close>

lemma stored_response_ok: "stored_response r \<Longrightarrow> ok_response r"
  by (cases r) (simp_all add: stored_response_def ok_response_def)

lemma not_ok_cases:
  "\<not> ok_response r \<Longrightarrow> r = Threw \<or> (\<exists>b. r = Response False b)"
  by (cases r) (simp_all add: ok_response_def)





lemma expired_ids_iff:
  assumes "snap_ok snap"
  shows "x \<in> set (expired_ids t snap) \<longleftrightarrow>
         (\<exists>d. map_of snap x = Some d \<and> \<not> closed d \<and> t - lastUpdated d > 24 * (1000 * 60 * 60))"
proof -
  have d: "distinct (map fst snap)" using assms by (simp add: snap_ok_def)
  have "x \<in> set (expired_ids t snap) \<longleftrightarrow>
        (\<exists>d. (x, d) \<in> set snap \<and> \<not> closed d \<and> t - lastUpdated d > 24 * (1000 * 60 * 60))"
    unfolding expired_ids_def by (auto simp: image_iff Bex_def)
  then show ?thesis using d by simp
qed

lemma prune_ids_iff:
  assumes "snap_ok snap"
  shows "x \<in> set (prune_ids t snap) \<longleftrightarrow>
         (\<exists>d. map_of snap x = Some d \<and> closed d \<and> t - lastUpdated d > 3 * (1000 * 60 * 60 * 24))"
proof -
  have d: "distinct (map fst snap)" using assms by (simp add: snap_ok_def)
  have "x \<in> set (prune_ids t snap) \<longleftrightarrow>
        (\<exists>d. (x, d) \<in> set snap \<and> closed d \<and> t - lastUpdated d > 3 * (1000 * 60 * 60 * 24))"
    unfolding prune_ids_def by (auto simp: image_iff Bex_def)
  then show ?thesis using d by simp
qed


section \<open>The history of the store\<close>

lemma history_att:
  assumes h: "history st0 (st, os, cs)" and a: "att acc e y c (st, os, cs) (st', os', cs')"
    and safe: "c \<or> (\<forall>r. map_of st (incident_key y) = Some r \<longrightarrow> \<not> closed r)"
  shows "history st0 (st', os', cs')"
  using att_ops [OF a] att_wf [OF a] h safe
  by (auto simp: history_def closed_monotone_append split: option.splits)

lemma history_delete:
  "history st0 (st, os, cs) \<Longrightarrow> history st0 (AList.delete k st, os @ [Delete k], cs)"
  by (simp add: history_def closed_monotone_append wf_store_delete)

lemma reconcile_history:
  assumes h: "history st0 (view s)"
  shows "history st0 (view (reconcile e feed s))"
proof -
  define snap where "snap = load_tracked (kv s)"
  have ok: "snap_ok snap" by (simp add: snap_def snap_ok_load)
  have wf: "wf_store (kv s)" using h by (simp add: history_def view_def)
  define I :: "view \<Rightarrow> bool" where
    "I = (\<lambda>(kvs, os, cs). \<forall>x r. map_of kvs (incident_key x) = Some r \<and> closed r
                              \<longrightarrow> (\<exists>t. map_of snap x = Some t \<and> closed t))"
  define P where "P = (\<lambda>v. history st0 v \<and> I v)"
  have open_safe: "\<And>acc y v v'. P v \<Longrightarrow> att acc e y False v v' \<Longrightarrow>
                   (\<forall>t. map_of snap y = Some t \<longrightarrow> \<not> closed t) \<Longrightarrow> P v'"
  proof -
    fix acc y and v v' :: view
    assume Pv: "P v" and a: "att acc e y False v v'"
      and y: "\<forall>t. map_of snap y = Some t \<longrightarrow> \<not> closed t"
    obtain st1 os1 cs1 where v: "v = (st1, os1, cs1)" by (cases v)
    obtain st2 os2 cs2 where v': "v' = (st2, os2, cs2)" by (cases v')
    note a' = a [unfolded v v']
    have safe: "\<forall>r. map_of st1 (incident_key y) = Some r \<longrightarrow> \<not> closed r"
      using Pv y by (fastforce simp: P_def I_def v)
    have hist: "history st0 v'"
      using history_att [OF _ a'] Pv safe by (simp add: P_def v v')
    have "I v'"
      unfolding I_def v'
    proof (clarify)
      fix x r assume r: "map_of st2 (incident_key x) = Some r" "closed r"
      show "\<exists>t. map_of snap x = Some t \<and> closed t"
      proof (cases "x = y")
        case True
        then show ?thesis using att_same_key [OF a'] r safe by auto
      next
        case False
        then have "map_of st2 (incident_key x) = map_of st1 (incident_key x)"
          using att_other_key [OF a', of "incident_key x"] by simp
        then have "map_of st1 (incident_key x) = Some r" using r by simp
        then show ?thesis using Pv r(2) unfolding P_def I_def v by blast
      qed
    qed
    then show "P v'" using hist by (simp add: P_def)
  qed
  have close_safe: "\<And>acc y v v'. history st0 v \<Longrightarrow> att acc e y True v v' \<Longrightarrow> history st0 v'"
  proof -
    fix acc y and v v' :: view
    assume hv: "history st0 v" and a: "att acc e y True v v'"
    obtain st1 os1 cs1 where v: "v = (st1, os1, cs1)" by (cases v)
    obtain st2 os2 cs2 where v': "v' = (st2, os2, cs2)" by (cases v')
    show "history st0 v'"
      using history_att [OF hv [unfolded v] a [unfolded v v']] by (simp add: v')
  qed
  define s3 where "s3 = load_step s"
  have "I (view s3)"
    using map_of_load_tracked [OF wf] by (auto simp: I_def s3_def view_def snap_def load_step_def)
  then have 3: "P (view s3) \<and> tracks snap s3" using h by (simp add: P_def s3_def snap_def)
  define s4 where "s4 = new_step e feed s3"
  have 4: "P (view s4) \<and> tracks snap s4"
    unfolding s4_def
  proof (rule new_step_rule [where P = P])
    fix inc v v'
    assume "map_of snap (ID inc) = None" "P v" "att stored_response e (ID inc) False v v'"
    then show "P v'" using open_safe [of v stored_response "ID inc" v'] by simp
  qed (use 3 in simp_all)
  define s5 where "s5 = open_step e feed s4"
  have 5: "P (view s5) \<and> tracks snap s5"
    unfolding s5_def
  proof (rule open_step_rule [where P = P])
    fix inc t v v'
    assume "map_of snap (ID inc) = Some t" "\<not> closed t" "P v" "att ok_response e (ID inc) False v v'"
    then show "P v'" using open_safe [of v ok_response "ID inc" v'] by simp
  qed (use 4 ok in simp_all)
  define s6 where "s6 = closed_step e feed s5"
  have 6: "history st0 (view s6) \<and> tracks snap s6"
    unfolding s6_def
  proof (rule closed_step_rule [where P = "history st0"])
    show "history st0 (view s5)" using 5 by (simp add: P_def)
  qed (use 5 ok close_safe in blast)+
  define s7 where "s7 = expired_step e s6"
  have 7: "history st0 (view s7) \<and> tracks snap s7"
    unfolding s7_def
    by (rule expired_step_rule [where P = "history st0"]) (use 6 ok close_safe in blast)+
  have "history st0 (view (prune_step e s7)) \<and> tracks snap (prune_step e s7)"
    by (rule prune_step_rule [where P = "history st0"]) (use 7 ok history_delete in blast)+
  then show ?thesis
    by (simp add: reconcile_def s7_def s6_def s5_def s4_def s3_def)
qed

section \<open>The request of a transition\<close>

lemma process_open_request:
  assumes "map_of (trackedIncidents s) (ID inc) = Some t" and "truthy (messageId t)"
  shows "process_open e inc s =
     (let q = transition_request e (DisplayIncidentCallType inc) (or_text (messageId t)) Alert (ID inc);
          s1 = s\<lparr>ticks := Suc (ticks s), calls := calls s @ [q]\<rparr>
      in case answer e (length (calls s)) q of
           Threw \<Rightarrow> s1
         | Response ok b \<Rightarrow>
             if \<not> ok then s1
             else store_updated e (ID inc)
                    (if prefix ''incident-'' (or_text (messageId t))
                     then adopt_from (ID inc) b s1 else s1))"
  using assms
  by (cases "prefix ''incident-'' (or_text (messageId t))")
     (simp_all add: process_open_def transition_request_def fetch_def Let_def split: response.splits)

lemma process_closed_request:
  assumes "map_of (trackedIncidents s) (ID inc) = Some t" and "truthy (messageId t)"
  shows "process_closed e inc s =
     (let q = transition_request e (DisplayIncidentCallType inc) (or_text (messageId t)) ClosedNotice (ID inc);
          s1 = s\<lparr>ticks := Suc (ticks s), calls := calls s @ [q]\<rparr>
      in case answer e (length (calls s)) q of
           Threw \<Rightarrow> s1
         | Response ok b \<Rightarrow>
             if \<not> ok then s1
             else (kv_put (incident_key (ID inc)) (t\<lparr>closed := True, lastUpdated := clock e (Suc (ticks s))\<rparr>)
                     (s1\<lparr>ticks := Suc (Suc (ticks s))\<rparr>))
                  \<lparr>closedCount := Suc (closedCount s)\<rparr>)"
  using assms
  by (simp add: process_closed_def fetch_def now_def kv_put_def Let_def split: response.splits)

lemma process_expired_request:
  assumes "map_of (trackedIncidents s) x = Some t" and "truthy (messageId t)"
  shows "process_expired e x s =
     (let q = transition_request e (displayIncidentCallType t) (or_text (messageId t)) ExpiredNotice x;
          s1 = s\<lparr>ticks := Suc (ticks s), calls := calls s @ [q]\<rparr>
      in case answer e (length (calls s)) q of
           Threw \<Rightarrow> s1
         | Response ok b \<Rightarrow>
             if \<not> ok then s1
             else (kv_put (incident_key x) (t\<lparr>closed := True, lastUpdated := clock e (Suc (ticks s))\<rparr>)
                     (s1\<lparr>ticks := Suc (Suc (ticks s))\<rparr>))
                  \<lparr>expiredCount := Suc (expiredCount s)\<rparr>)"
  using assms
  by (simp add: process_expired_def fetch_def now_def kv_put_def Let_def split: response.splits)

lemma transition_request_method:
  "transition_request e ct mid p x =
     (if prefix ''incident-'' mid
      then \<lparr>req_method = POST, url = webhook_for e ct, presentation = p, footer_id = x\<rparr>
      else \<lparr>req_method = PATCH, url = webhook_for e ct @ ''/messages/'' @ mid,
            presentation = p, footer_id = x\<rparr>)"
  by (simp add: transition_request_def Let_def)

lemma calls_one_request:
  "calls (case r of Threw \<Rightarrow> s1 | Response ok b \<Rightarrow> if \<not> ok then s1 else f b) =
   (case r of Threw \<Rightarrow> calls s1 | Response ok b \<Rightarrow> if \<not> ok then calls s1 else calls (f b))"
  by (cases r) simp_all

lemma one_call_each:
  assumes "map_of (trackedIncidents s) (ID inc) = Some t" and "truthy (messageId t)"
  shows "calls (process_open e inc s) = calls s @
           [transition_request e (DisplayIncidentCallType inc) (or_text (messageId t)) Alert (ID inc)]"
    and "calls (process_closed e inc s) = calls s @
           [transition_request e (DisplayIncidentCallType inc) (or_text (messageId t)) ClosedNotice (ID inc)]"
    and "calls (process_expired e (ID inc) s) = calls s @
           [transition_request e (displayIncidentCallType t) (or_text (messageId t)) ExpiredNotice (ID inc)]"
proof -
  show "calls (process_open e inc s) = calls s @
           [transition_request e (DisplayIncidentCallType inc) (or_text (messageId t)) Alert (ID inc)]"
    unfolding process_open_request [OF assms]
    by (auto simp: Let_def store_updated_def now_def kv_put_def split: response.splits option.splits)
  show "calls (process_closed e inc s) = calls s @
           [transition_request e (DisplayIncidentCallType inc) (or_text (messageId t)) ClosedNotice (ID inc)]"
    unfolding process_closed_request [OF assms]
    by (auto simp: Let_def kv_put_def split: response.splits)
  show "calls (process_expired e (ID inc) s) = calls s @
           [transition_request e (displayIncidentCallType t) (or_text (messageId t)) ExpiredNotice (ID inc)]"
    unfolding process_expired_request [OF assms]
    by (auto simp: Let_def kv_put_def split: response.splits)
qed

lemma update_adopts:
  assumes tr: "map_of (trackedIncidents s) (ID inc) = Some t" and mid: "truthy (messageId t)"
    and fb: "prefix ''incident-'' (or_text (messageId t))"
    and ans: "answer e (length (calls s))
                (transition_request e (DisplayIncidentCallType inc) (or_text (messageId t)) Alert (ID inc))
              = Response True (Json (JObject (Some m) a b))"
    and m: "m \<noteq> []"
  shows "map_of (kv (process_open e inc s)) (incident_key (ID inc))
         = Some (t\<lparr>messageId := Some m, lastUpdated := clock e (Suc (ticks s))\<rparr>)"
  unfolding process_open_request [OF tr mid]
  using tr fb ans m
  by (simp add: Let_def adopt_from_def adopt_id_def truthy_def or_text_def store_updated_def
        map_of_map_entry now_def kv_put_def update_conv')

lemma closing_keeps_id:
  assumes tr: "map_of (trackedIncidents s) (ID inc) = Some t" and mid: "truthy (messageId t)"
  shows "answer e (length (calls s))
           (transition_request e (DisplayIncidentCallType inc) (or_text (messageId t)) ClosedNotice (ID inc))
         = Response True b \<Longrightarrow>
         map_of (kv (process_closed e inc s)) (incident_key (ID inc))
         = Some (t\<lparr>closed := True, lastUpdated := clock e (Suc (ticks s))\<rparr>)"
    and "answer e (length (calls s))
           (transition_request e (displayIncidentCallType t) (or_text (messageId t)) ExpiredNotice (ID inc))
         = Response True b \<Longrightarrow>
         map_of (kv (process_expired e (ID inc) s)) (incident_key (ID inc))
         = Some (t\<lparr>closed := True, lastUpdated := clock e (Suc (ticks s))\<rparr>)"
  unfolding process_closed_request [OF tr mid] process_expired_request [OF tr mid]
  by (simp_all add: Let_def kv_put_def update_conv')

section \<open>What a loop establishes for each of its elements\<close>

lemma fold_establishes:
  assumes "x \<in> set xs" and "I s"
    and inv: "\<And>y s. y \<in> set xs \<Longrightarrow> I s \<Longrightarrow> I (f y s)"
    and est: "\<And>s. I s \<Longrightarrow> R (f x s)"
    and stab: "\<And>y s. y \<in> set xs \<Longrightarrow> I s \<Longrightarrow> R s \<Longrightarrow> R (f y s)"
  shows "R (fold f xs s) \<and> I (fold f xs s)"
proof -
  have keep: "\<And>ys s. set ys \<subseteq> set xs \<Longrightarrow> R s \<and> I s \<Longrightarrow> R (fold f ys s) \<and> I (fold f ys s)"
  proof -
    fix ys s assume "set ys \<subseteq> set xs" "R s \<and> I s"
    then show "R (fold f ys s) \<and> I (fold f ys s)"
      by (induction ys arbitrary: s) (auto intro: inv stab)
  qed
  have "\<And>ys s. set ys \<subseteq> set xs \<Longrightarrow> x \<in> set ys \<Longrightarrow> I s \<Longrightarrow> R (fold f ys s) \<and> I (fold f ys s)"
  proof -
    fix ys s assume "set ys \<subseteq> set xs" "x \<in> set ys" "I s"
    then show "R (fold f ys s) \<and> I (fold f ys s)"
    proof (induction ys arbitrary: s)
      case Nil
      then show ?case by simp
    next
      case (Cons a ys)
      have a: "a \<in> set xs" and sub: "set ys \<subseteq> set xs" using Cons.prems(1) by auto
      have Ia: "I (f a s)" using inv [OF a Cons.prems(3)] .
      show ?case
      proof (cases "x \<in> set ys")
        case True
        from Cons.IH [OF sub True Ia] show ?thesis by simp
      next
        case False
        then have "x = a" using Cons.prems(2) by simp
        then have "R (f a s)" using est [OF Cons.prems(3)] by simp
        from keep [OF sub] this Ia show ?thesis by simp
      qed
    qed
  qed
  from this [of xs s] assms(1,2) show ?thesis by simp
qed

lemma new_step_establishes:
  assumes tr: "tracks snap s" and inc: "inc \<in> set (new_ones snap feed)"
    and acc: "\<forall>n q. stored_response (answer e n q)"
  shows "\<exists>r. map_of (kv (new_step e feed s)) (incident_key (ID inc)) = Some r \<and> \<not> closed r"
proof -
  define R :: "state \<Rightarrow> bool" where "R = (\<lambda>s. \<exists>r. map_of (kv s) (incident_key (ID inc)) = Some r \<and> \<not> closed r)"
  have a: "\<And>i s. att stored_response e (ID i) False (kv s, ops s, calls s)
                   (kv (process_new e i s), ops (process_new e i s), calls (process_new e i s))"
    using process_new_attempt by (simp add: attempt_def view_def)
  have "R (fold (process_new e) (new_ones snap feed) s) \<and> True"
  proof (rule fold_establishes [where I = "\<lambda>s. True" and x = inc])
    fix s1
    show "R (process_new e inc s1)"
      using att_accepted [OF a [of inc s1] acc] by (auto simp: R_def)
  next
    fix y s1 assume "R s1"
    then show "R (process_new e y s1)"
      using att_same_key [OF a [of y s1]] att_other_key [OF a [of y s1], of "incident_key (ID inc)"]
      by (cases "ID y = ID inc") (auto simp: R_def)
  qed (use inc in simp_all)
  then show ?thesis using tr by (simp add: new_step_def tracks_new_ones Let_def R_def)
qed

lemma closed_step_establishes:
  assumes ok: "snap_ok snap" and tr: "tracks snap s"
    and inc: "inc \<in> set (newly_closed snap feed)"
    and t0: "map_of snap (ID inc) = Some t0" "truthy (messageId t0)"
    and acc: "\<forall>n q. ok_response (answer e n q)"
  shows "(case map_of (kv (closed_step e feed s)) (incident_key (ID inc)) of
            None \<Rightarrow> True | Some r \<Rightarrow> closed r)
         \<and> tracks snap (closed_step e feed s)"
proof -
  define R :: "state \<Rightarrow> bool" where "R = (\<lambda>s. case map_of (kv s) (incident_key (ID inc)) of
                              None \<Rightarrow> True | Some r \<Rightarrow> closed r)"
  have a: "\<And>i s1. i \<in> set (newly_closed snap feed) \<Longrightarrow> tracks snap s1 \<Longrightarrow>
             process_closed e i s1 = s1
             \<or> att ok_response e (ID i) True (kv s1, ops s1, calls s1)
                  (kv (process_closed e i s1), ops (process_closed e i s1), calls (process_closed e i s1))"
  proof -
    fix i s1 assume i: "i \<in> set (newly_closed snap feed)" and tr1: "tracks snap s1"
    show "process_closed e i s1 = s1
       \<or> att ok_response e (ID i) True (kv s1, ops s1, calls s1)
            (kv (process_closed e i s1), ops (process_closed e i s1), calls (process_closed e i s1))"
    proof (cases "map_of snap (ID i)")
      case None
      then have "map_of (trackedIncidents s1) (ID i) = None"
        using tracks_none [OF tr1, of "ID i"] by simp
      then show ?thesis by (simp add: process_closed_inherited)
    next
      case (Some u0)
      from tracks_lookup [OF tr1 Some] obtain u where
        u: "map_of (trackedIncidents s1) (ID i) = Some u" "pulsepointId u = pulsepointId u0" by blast
      have "pulsepointId u = ID i" using snap_ok_lookup [OF ok Some] u(2) by simp
      from process_closed_attempt [OF u(1) this, of e] show ?thesis
        by (auto simp: attempt_def view_def split: if_splits)
    qed
  qed
  have "R (fold (process_closed e) (newly_closed snap feed) s)
        \<and> tracks snap (fold (process_closed e) (newly_closed snap feed) s)"
  proof (rule fold_establishes [where x = inc])
    fix y s1 assume "tracks snap s1"
    then show "tracks snap (process_closed e y s1)" by (simp add: tracks_def)
  next
    fix s1 assume tr1: "tracks snap s1"
    from tracks_lookup [OF tr1 t0(1)] obtain t where
      t: "map_of (trackedIncidents s1) (ID inc) = Some t" "pulsepointId t = pulsepointId t0"
         "truthy (messageId t) = truthy (messageId t0)" by blast
    have "pulsepointId t = ID inc" using snap_ok_lookup [OF ok t0(1)] t(2) by simp
    from process_closed_attempt [OF t(1) this, of e] t(3) t0(2)
    have "att ok_response e (ID inc) True (kv s1, ops s1, calls s1)
            (kv (process_closed e inc s1), ops (process_closed e inc s1), calls (process_closed e inc s1))"
      by (simp add: attempt_def view_def)
    from att_accepted [OF this acc] show "R (process_closed e inc s1)" by (auto simp: R_def)
  next
    fix y s1 assume y: "y \<in> set (newly_closed snap feed)" and tr1: "tracks snap s1" and R1: "R s1"
    from a [OF y tr1] show "R (process_closed e y s1)"
    proof
      assume "process_closed e y s1 = s1"
      then show ?thesis using R1 by simp
    next
      assume at: "att ok_response e (ID y) True (kv s1, ops s1, calls s1)
            (kv (process_closed e y s1), ops (process_closed e y s1), calls (process_closed e y s1))"
      show ?thesis
        using att_same_key [OF at] att_other_key [OF at, of "incident_key (ID inc)"] R1
        by (cases "ID y = ID inc") (auto simp: R_def)
    qed
  qed (use inc tr in simp_all)
  then show ?thesis using tr by (simp add: closed_step_def tracks_newly_closed R_def)
qed

section \<open>A record through the later steps\<close>

lemma after_closed_rule:
  assumes ok: "snap_ok snap" and tr: "tracks snap s" and P: "P (view s)"
    and exp: "\<And>y t v v'. map_of snap y = Some t \<Longrightarrow> \<not> closed t \<Longrightarrow> truthy (messageId t) \<Longrightarrow>
                 P v \<Longrightarrow> att ok_response e y True v v' \<Longrightarrow> P v'"
    and prn: "\<And>y t st os cs. map_of snap y = Some t \<Longrightarrow> closed t \<Longrightarrow> P (st, os, cs) \<Longrightarrow>
                 P (AList.delete (incident_key y) st, os @ [Delete (incident_key y)], cs)"
  shows "P (view (prune_step e (expired_step e s)))"
proof -
  have 7: "P (view (expired_step e s)) \<and> tracks snap (expired_step e s)"
    using ok tr P exp by (intro expired_step_rule [where P = P]) blast+
  have "P (view (prune_step e (expired_step e s))) \<and> tracks snap (prune_step e (expired_step e s))"
    using 7 ok prn by (intro prune_step_rule [where P = P]) blast+
  then show ?thesis by simp
qed

lemma after_new_rule:
  assumes ok: "snap_ok snap" and tr: "tracks snap s" and P: "P (view s)"
    and upd: "\<And>inc t v v'. inc \<in> set feed \<Longrightarrow> Closed inc \<noteq> Some True \<Longrightarrow>
                 map_of snap (ID inc) = Some t \<Longrightarrow> \<not> closed t \<Longrightarrow> truthy (messageId t) \<Longrightarrow>
                 P v \<Longrightarrow> att ok_response e (ID inc) False v v' \<Longrightarrow> P v'"
    and cls: "\<And>inc t v v'. inc \<in> set feed \<Longrightarrow> Closed inc = Some True \<Longrightarrow>
                 map_of snap (ID inc) = Some t \<Longrightarrow> \<not> closed t \<Longrightarrow> truthy (messageId t) \<Longrightarrow>
                 P v \<Longrightarrow> att ok_response e (ID inc) True v v' \<Longrightarrow> P v'"
    and exp: "\<And>y t v v'. map_of snap y = Some t \<Longrightarrow> \<not> closed t \<Longrightarrow> truthy (messageId t) \<Longrightarrow>
                 P v \<Longrightarrow> att ok_response e y True v v' \<Longrightarrow> P v'"
    and prn: "\<And>y t st os cs. map_of snap y = Some t \<Longrightarrow> closed t \<Longrightarrow> P (st, os, cs) \<Longrightarrow>
                 P (AList.delete (incident_key y) st, os @ [Delete (incident_key y)], cs)"
  shows "P (view (prune_step e (expired_step e (closed_step e feed (open_step e feed s)))))"
proof -
  have 5: "P (view (open_step e feed s)) \<and> tracks snap (open_step e feed s)"
    using ok tr P upd by (intro open_step_rule [where P = P]) blast+
  have 6: "P (view (closed_step e feed (open_step e feed s)))
           \<and> tracks snap (closed_step e feed (open_step e feed s))"
    using 5 ok cls by (intro closed_step_rule [where P = P]) blast+
  show ?thesis
    using 6 ok exp prn by (intro after_closed_rule [where P = P and snap = snap]) blast+
qed

lemma reconcile_wf:
  assumes "wf_store st"
  shows "wf_store (kv (reconcile e feed (initial st)))"
proof -
  have "history st (view (initial st))" using assms by (simp add: history_def)
  from reconcile_history [OF this, of e feed] show ?thesis by (simp add: history_def view_def)
qed

lemma closed_or_absent_closing:
  assumes "closed_or_absent y v" and "att acc e y' True v v'"
  shows "closed_or_absent y v'"
proof -
  obtain st1 os1 cs1 where v: "v = (st1, os1, cs1)" by (cases v)
  obtain st2 os2 cs2 where v': "v' = (st2, os2, cs2)" by (cases v')
  note a = assms(2) [unfolded v v']
  show ?thesis
    using att_same_key [OF a] att_other_key [OF a, of "incident_key y"] assms(1)
    by (cases "y' = y") (auto simp: closed_or_absent_def v v')
qed

lemma closed_or_absent_other:
  assumes "closed_or_absent y v" and "att acc e y' c v v'" and "y' \<noteq> y"
  shows "closed_or_absent y v'"
proof -
  obtain st1 os1 cs1 where v: "v = (st1, os1, cs1)" by (cases v)
  obtain st2 os2 cs2 where v': "v' = (st2, os2, cs2)" by (cases v')
  note a = assms(2) [unfolded v v']
  show ?thesis
    using att_other_key [OF a, of "incident_key y"] assms(1,3)
    by (auto simp: closed_or_absent_def v v')
qed

lemma closed_or_absent_delete:
  "closed_or_absent y (st, os, cs) \<Longrightarrow>
   closed_or_absent y (AList.delete k st, os @ [Delete k], cs)"
  by (cases "k = incident_key y") (auto simp: closed_or_absent_def delete_conv')

lemma kept_att:
  assumes "kept y v" and "att acc e y' c v v'"
  shows "kept y v'"
proof -
  obtain st1 os1 cs1 where v: "v = (st1, os1, cs1)" by (cases v)
  obtain st2 os2 cs2 where v': "v' = (st2, os2, cs2)" by (cases v')
  note a = assms(2) [unfolded v v']
  show ?thesis
    using att_ops [OF a] assms(1)
    by (auto simp: kept_def v v' update_conv')
qed

lemma kept_delete:
  "kept y (st, os, cs) \<Longrightarrow> kept y (AList.delete k st, os @ [Delete k], cs)"
  by (cases "k = incident_key y") (auto simp: kept_def delete_conv')

lemma open_in_store_other:
  assumes "open_in_store y v" and "att acc e y' c v v'" and "y' \<noteq> y"
  shows "open_in_store y v'"
proof -
  obtain st1 os1 cs1 where v: "v = (st1, os1, cs1)" by (cases v)
  obtain st2 os2 cs2 where v': "v' = (st2, os2, cs2)" by (cases v')
  note a = assms(2) [unfolded v v']
  show ?thesis
    using att_other_key [OF a, of "incident_key y"] assms(1,3)
    by (auto simp: open_in_store_def v v')
qed

lemma open_in_store_delete:
  "open_in_store y (st, os, cs) \<Longrightarrow> y' \<noteq> y \<Longrightarrow>
   open_in_store y (AList.delete (incident_key y') st, os @ [Delete (incident_key y')], cs)"
  by (auto simp: open_in_store_def delete_conv')

section \<open>The store after a run whose calls all succeed\<close>

lemma second_run_nothing_to_close:
  assumes wf: "wf_store st"
    and acc: "\<forall>n q. stored_response (answer e n q)"
    and mids: "list_all (\<lambda>(k, r). \<not> closed r \<longrightarrow> truthy (messageId r)) st"
    and ids: "distinct (map ID feed)"
    and inc: "inc \<in> set feed" "Closed inc = Some True"
  shows "closed_or_absent (ID inc) (view (reconcile e feed (initial st)))"
proof -
  define y where "y = ID inc"
  define snap where "snap = load_tracked st"
  have ok: "snap_ok snap" by (simp add: snap_def snap_ok_load)
  have acc': "\<forall>n q. ok_response (answer e n q)" using acc stored_response_ok by blast
  have snap_st: "\<And>x. map_of snap x = map_of st (incident_key x)"
    using map_of_load_tracked [OF wf] by (simp add: snap_def)
  have same: "\<And>a. a \<in> set feed \<Longrightarrow> ID a = y \<Longrightarrow> a = inc"
    using ids inc(1) unfolding y_def by (meson distinct_map inj_onD)
  show ?thesis
  proof (cases "\<exists>t. map_of snap y = Some t \<and> \<not> closed t")
    case True
    then obtain t0 where t0: "map_of snap y = Some t0" "\<not> closed t0" by blast
    have "(incident_key y, t0) \<in> set st" using t0(1) snap_st by (auto dest: map_of_SomeD)
    then have mid: "truthy (messageId t0)" using mids t0(2) by (auto simp: list_all_iff)
    have sel: "inc \<in> set (newly_closed snap feed)"
      using inc t0 by (simp add: newly_closed_def y_def)
    define s3 where "s3 = load_step (initial st)"
    have 3: "tracks snap s3" using tracks_load [of "initial st"] by (simp add: s3_def snap_def)
    define s4 where "s4 = new_step e feed s3"
    have 4: "tracks snap s4"
      unfolding s4_def using new_step_rule [where P = "\<lambda>v. True", OF 3] by simp
    define s5 where "s5 = open_step e feed s4"
    have 5: "tracks snap s5"
      unfolding s5_def using open_step_rule [where P = "\<lambda>v. True", OF ok 4] by simp
    define s6 where "s6 = closed_step e feed s5"
    have 6: "closed_or_absent y (view s6) \<and> tracks snap s6"
      unfolding s6_def
      using closed_step_establishes [OF ok 5 sel t0(1) [unfolded y_def] mid acc']
      by (simp add: closed_or_absent_def view_def y_def)
    have "closed_or_absent y (view (prune_step e (expired_step e s6)))"
    proof (rule after_closed_rule [where snap = snap])
      show "closed_or_absent y (view s6)" using 6 by simp
    qed (use ok 6 closed_or_absent_closing closed_or_absent_delete in blast)+
    then show ?thesis
      by (simp add: reconcile_def s6_def s5_def s4_def s3_def y_def)
  next
    case False
    have other: "\<And>t. map_of snap y' = Some t \<Longrightarrow> \<not> closed t \<Longrightarrow> y' \<noteq> y" for y'
      using False by auto
    have "closed_or_absent y (view (reconcile e feed (initial st)))"
    proof (rule reconcile_rule [where P = "closed_or_absent y"])
      show "closed_or_absent y (view (initial st))"
        using False snap_st by (auto simp: closed_or_absent_def split: option.splits)
    next
      fix i v v'
      assume i: "i \<in> set feed" "Closed i \<noteq> Some True"
        and c: "closed_or_absent y v" and a: "att stored_response e (ID i) False v v'"
      have "ID i \<noteq> y" using same [OF i(1)] i(2) inc(2) by auto
      from closed_or_absent_other [OF c a this] show "closed_or_absent y v'" .
    next
      fix i t v v'
      assume "map_of (load_tracked (kv (initial st))) (ID i) = Some t" "\<not> closed t"
        and c: "closed_or_absent y v" and a: "att ok_response e (ID i) False v v'"
      then have "ID i \<noteq> y" using other [of "ID i" t] by (simp add: snap_def)
      from closed_or_absent_other [OF c a this] show "closed_or_absent y v'" .
    qed (use closed_or_absent_closing closed_or_absent_delete in blast)+
    then show ?thesis by (simp add: y_def)
  qed
qed

lemma second_run_new_only_pruned:
  assumes wf: "wf_store st"
    and acc: "\<forall>n q. stored_response (answer e n q)"
    and inc: "inc \<in> set feed" "Closed inc \<noteq> Some True" "isMatch inc"
      "ID inc \<notin> set object_prototype_names"
  shows "kept (ID inc) (view (reconcile e feed (initial st)))"
proof -
  define y where "y = ID inc"
  define snap where "snap = load_tracked st"
  have ok: "snap_ok snap" by (simp add: snap_def snap_ok_load)
  have snap_st: "\<And>x. map_of snap x = map_of st (incident_key x)"
    using map_of_load_tracked [OF wf] by (simp add: snap_def)
  define s3 where "s3 = load_step (initial st)"
  have 3: "tracks snap s3" using tracks_load [of "initial st"] by (simp add: s3_def snap_def)
  define s4 where "s4 = new_step e feed s3"
  have 4: "kept y (view s4) \<and> tracks snap s4"
  proof (cases "map_of st (incident_key y)")
    case None
    then have "inc \<in> set (new_ones snap feed)"
      using inc snap_st by (simp add: new_ones_def tracked_lookup_Undefined y_def)
    from new_step_establishes [OF 3 this acc] have "kept y (view s4)"
      by (auto simp: kept_def view_def s4_def y_def)
    moreover have "tracks snap s4"
      unfolding s4_def using new_step_rule [where P = "\<lambda>v. True", OF 3] by simp
    ultimately show ?thesis by simp
  next
    case (Some r)
    then have "kept y (view s3)" by (simp add: kept_def s3_def)
    then show ?thesis
      unfolding s4_def using 3 kept_att
      by (intro new_step_rule [where P = "kept y"]) blast+
  qed
  have "kept y (view (prune_step e (expired_step e (closed_step e feed (open_step e feed s4)))))"
  proof (rule after_new_rule [where snap = snap])
    show "kept y (view s4)" using 4 by simp
  qed (use ok 4 kept_att kept_delete in blast)+
  then show ?thesis by (simp add: reconcile_def s4_def s3_def y_def)
qed

lemma first_run_new_is_open_after:
  assumes wf: "wf_store st"
    and acc: "\<forall>n q. stored_response (answer e n q)"
    and inc: "inc \<in> set (new_ones (load_tracked st) feed)"
  shows "open_in_store (ID inc) (view (reconcile e feed (initial st)))"
proof -
  define y where "y = ID inc"
  define snap where "snap = load_tracked st"
  have ok: "snap_ok snap" by (simp add: snap_def snap_ok_load)
  have none: "map_of snap y = None" using new_ones_lookup [OF inc] by (simp add: snap_def y_def)
  define s3 where "s3 = load_step (initial st)"
  have 3: "tracks snap s3" using tracks_load [of "initial st"] by (simp add: s3_def snap_def)
  define s4 where "s4 = new_step e feed s3"
  have 4: "open_in_store y (view s4)"
    using new_step_establishes [OF 3 inc [folded snap_def] acc]
    by (simp add: open_in_store_def view_def s4_def y_def)
  have tr4: "tracks snap s4"
    unfolding s4_def using new_step_rule [where P = "\<lambda>v. True", OF 3] by simp
  have ne: "\<And>y' t. map_of snap y' = Some t \<Longrightarrow> y' \<noteq> y" using none by auto
  have "open_in_store y (view (prune_step e (expired_step e (closed_step e feed (open_step e feed s4)))))"
  proof (rule after_new_rule [where snap = snap])
    show "open_in_store y (view s4)" using 4 .
  qed (use ok tr4 ne open_in_store_other open_in_store_delete in blast)+
  then show ?thesis by (simp add: reconcile_def s4_def s3_def y_def)
qed

lemma untouched_refused:
  assumes "map_of (trackedIncidents s) (ID inc) = Some t" and "truthy (messageId t)"
  shows "\<not> ok_response (answer e (length (calls s))
             (transition_request e (DisplayIncidentCallType inc) (or_text (messageId t)) Alert (ID inc)))
         \<Longrightarrow> untouched (process_open e inc s) s"
    and "\<not> ok_response (answer e (length (calls s))
             (transition_request e (DisplayIncidentCallType inc) (or_text (messageId t)) ClosedNotice (ID inc)))
         \<Longrightarrow> untouched (process_closed e inc s) s"
    and "\<not> ok_response (answer e (length (calls s))
             (transition_request e (displayIncidentCallType t) (or_text (messageId t)) ExpiredNotice (ID inc)))
         \<Longrightarrow> untouched (process_expired e (ID inc) s) s"
  unfolding process_open_request [OF assms] process_closed_request [OF assms]
    process_expired_request [OF assms]
  by (auto simp: untouched_def Let_def dest!: not_ok_cases)

section \<open>Every selected incident gets its round\<close>

text \<open>
  A round only adds to the two logs, so what one round has logged is still there at the
  end of the run; and a loop makes the round of each of its elements, whatever the
  rounds before it were answered.
\<close>

lemma grows_refl [simp]: "grows s s"
  by (simp add: grows_def)











lemma grows_counters [simp]:
  "grows s (s'\<lparr>newCount := n\<rparr>) = grows s s'"
  "grows s (s'\<lparr>ticks := n\<rparr>) = grows s s'"
  "grows (s\<lparr>ticks := n\<rparr>) s' = grows s s'"
  by (simp_all add: grows_def)

lemma round_done_counters [simp]:
  "round_done e acc y p c (s\<lparr>newCount := n\<rparr>) = round_done e acc y p c s"
  "round_done e acc y p c (s\<lparr>ticks := n\<rparr>) = round_done e acc y p c s"
  by (simp_all add: round_done_def)









lemma transition_request_fields [simp]:
  "presentation (transition_request e ct mid p x) = p"
  "footer_id (transition_request e ct mid p x) = x"
  by (simp_all add: transition_request_method)






section \<open>Properties of the reconciliation run\<close>

text \<open>
  C1, as the claim states it, fails. A first run over an empty store creates the record
  of the one open incident of the feed; the second run over the same feed selects that
  incident as updated-open, patches its message and counts one update.
\<close>

theorem second_run_still_updates:
  "new_ones (load_tracked []) [demo_incident] = [demo_incident]
   \<and> open_incidents (load_tracked (kv (reconcile env_created [demo_incident] (initial []))))
        [demo_incident] = [demo_incident]
   \<and> updatedOpenIncidents (run_stats [demo_incident]
        (reconcile env_created [demo_incident]
          (reconcile env_created [demo_incident] (initial [])))) = 1"
  by code_simp

text \<open>
  C1, amended. Let the first run start from a well-formed store in which every open
  record has a message identifier, let the feed name no identifier twice and none
  that names a member of \<^verbatim>\<open>Object.prototype\<close>, and let every notification call of
  the run succeed with a readable answer. Then, over the
  same feed, the second run selects no newly-closed incident; it selects as new only
  incidents whose record the first run deleted (none when the first run pruned
  nothing); and every incident the first run selected as new is selected as
  updated-open by the second.
\<close>

theorem second_run_after_success:
  assumes wf: "wf_store st"
    and acc: "\<forall>n q. stored_response (answer e n q)"
    and mids: "list_all (\<lambda>(k, r). \<not> closed r \<longrightarrow> truthy (messageId r)) st"
    and ids: "distinct (map ID feed)"
    and names: "list_all (\<lambda>inc. ID inc \<notin> set object_prototype_names) feed"
  shows "newly_closed (load_tracked (kv (reconcile e feed (initial st)))) feed = []
       \<and> (\<forall>inc\<in>set (new_ones (load_tracked (kv (reconcile e feed (initial st)))) feed).
            Delete (incident_key (ID inc)) \<in> set (ops (reconcile e feed (initial st))))
       \<and> (\<forall>inc\<in>set (new_ones (load_tracked st) feed).
            inc \<in> set (open_incidents (load_tracked (kv (reconcile e feed (initial st)))) feed))"
proof -
  define s1 where "s1 = reconcile e feed (initial st)"
  have wf1: "wf_store (kv s1)" unfolding s1_def using wf by (rule reconcile_wf)
  have look: "\<And>x. map_of (load_tracked (kv s1)) x = map_of (kv s1) (incident_key x)"
    using map_of_load_tracked [OF wf1] .
  have a: "newly_closed (load_tracked (kv s1)) feed = []"
  proof -
    have "\<And>inc. inc \<in> set feed \<Longrightarrow> Closed inc = Some True \<Longrightarrow>
            closed_or_absent (ID inc) (view s1)"
      unfolding s1_def by (rule second_run_nothing_to_close [OF wf acc mids ids])
    then have "\<And>inc. inc \<in> set feed \<Longrightarrow> Closed inc = Some True \<Longrightarrow>
            (case map_of (kv s1) (incident_key (ID inc)) of None \<Rightarrow> True | Some r \<Rightarrow> closed r)"
      by (simp add: closed_or_absent_def view_def)
    then have "\<And>inc r. inc \<in> set feed \<Longrightarrow> Closed inc = Some True \<Longrightarrow>
            map_of (kv s1) (incident_key (ID inc)) = Some r \<Longrightarrow> closed r"
      by fastforce
    then show ?thesis
      using names
      by (auto simp: newly_closed_def tracked_lookup_def look filter_empty_conv list_all_iff
               split: option.splits)
  qed
  have b: "\<forall>inc\<in>set (new_ones (load_tracked (kv s1)) feed).
             Delete (incident_key (ID inc)) \<in> set (ops s1)"
  proof
    fix inc assume i: "inc \<in> set (new_ones (load_tracked (kv s1)) feed)"
    then have f: "inc \<in> set feed" "Closed inc \<noteq> Some True" "isMatch inc"
        "ID inc \<notin> set object_prototype_names"
      and n: "map_of (kv s1) (incident_key (ID inc)) = None"
      by (simp_all add: new_ones_def tracked_lookup_Undefined look)
    have "kept (ID inc) (view s1)"
      unfolding s1_def by (rule second_run_new_only_pruned [OF wf acc f])
    then show "Delete (incident_key (ID inc)) \<in> set (ops s1)"
      using n by (simp add: kept_def view_def)
  qed
  have c: "\<forall>inc\<in>set (new_ones (load_tracked st) feed).
             inc \<in> set (open_incidents (load_tracked (kv s1)) feed)"
  proof
    fix inc assume i: "inc \<in> set (new_ones (load_tracked st) feed)"
    then have f: "inc \<in> set feed" "Closed inc \<noteq> Some True" by (simp_all add: new_ones_def)
    have "open_in_store (ID inc) (view s1)"
      unfolding s1_def by (rule first_run_new_is_open_after [OF wf acc i])
    then show "inc \<in> set (open_incidents (load_tracked (kv s1)) feed)"
      using f by (auto simp: open_in_store_def view_def open_incidents_def look)
  qed
  from a b c show ?thesis unfolding s1_def by simp
qed

text \<open>The hypotheses of C1's theorem hold for a store that tracks incident 8 as open and a
  feed with the new incident 7 and the closed incident 8.\<close>

theorem second_run_after_success_witness:
  "wf_store closing_store
   \<and> (\<forall>n q. stored_response (answer env_created n q))
   \<and> list_all (\<lambda>(k, r). \<not> closed r \<longrightarrow> truthy (messageId r)) closing_store
   \<and> distinct (map ID [demo_incident, demo_closed_incident])
   \<and> list_all (\<lambda>inc. ID inc \<notin> set object_prototype_names) [demo_incident, demo_closed_incident]
   \<and> newly_closed (load_tracked (kv (reconcile env_created [demo_incident, demo_closed_incident]
        (initial closing_store)))) [demo_incident, demo_closed_incident] = []
   \<and> demo_incident \<in> set (open_incidents (load_tracked (kv (reconcile env_created
        [demo_incident, demo_closed_incident] (initial closing_store))))
        [demo_incident, demo_closed_incident])"
proof -
  have h1: "wf_store closing_store" by code_simp
  have h2: "\<forall>n q. stored_response (answer env_created n q)"
    by (simp add: env_created_def created_def stored_response_def)
  have h3: "list_all (\<lambda>(k, r). \<not> closed r \<longrightarrow> truthy (messageId r)) closing_store" by code_simp
  have h4: "distinct (map ID [demo_incident, demo_closed_incident])" by code_simp
  have h5: "list_all (\<lambda>inc. ID inc \<notin> set object_prototype_names)
              [demo_incident, demo_closed_incident]"
    by code_simp
  have new: "demo_incident \<in> set (new_ones (load_tracked closing_store)
                                    [demo_incident, demo_closed_incident])"
    by code_simp
  show ?thesis
    using h1 h2 h3 h4 h5 new second_run_after_success [OF h1 h2 h3 h4 h5] by blast
qed

text \<open>
  C2, as the claim states it, fails. An open record last updated 25 hours ago, whose
  incident is still open in the feed, is selected both as updated-open and as expired.
\<close>

theorem stale_open_incident_in_two_classes:
  "''7'' \<in> set (updated_class (load_tracked demo_store) [demo_incident])
   \<and> ''7'' \<in> set (expired_ids 90000000 (load_tracked demo_store))"
  by code_simp

text \<open>
  C2, amended. For a feed that names no identifier twice, the classes new,
  updated-open, newly-closed and pruned are pairwise disjoint, and the class expired is
  disjoint from new and from pruned. (Expired can share identifiers with updated-open
  and with newly-closed.) Each class is computed against the snapshot loaded at the
  start of the run; \<open>t7\<close> and \<open>t8\<close> are the clock readings of the expiry and the
  pruning step.
\<close>

theorem classes_disjoint_except_expired:
  assumes "distinct (map ID feed)"
  shows "set (new_class (load_tracked st) feed) \<inter> set (updated_class (load_tracked st) feed) = {}
       \<and> set (new_class (load_tracked st) feed) \<inter> set (closed_class (load_tracked st) feed) = {}
       \<and> set (new_class (load_tracked st) feed) \<inter> set (expired_ids t7 (load_tracked st)) = {}
       \<and> set (new_class (load_tracked st) feed) \<inter> set (prune_ids t8 (load_tracked st)) = {}
       \<and> set (updated_class (load_tracked st) feed) \<inter> set (closed_class (load_tracked st) feed) = {}
       \<and> set (updated_class (load_tracked st) feed) \<inter> set (prune_ids t8 (load_tracked st)) = {}
       \<and> set (closed_class (load_tracked st) feed) \<inter> set (prune_ids t8 (load_tracked st)) = {}
       \<and> set (expired_ids t7 (load_tracked st)) \<inter> set (prune_ids t8 (load_tracked st)) = {}"
proof -
  define snap where "snap = load_tracked st"
  have ok: "snap_ok snap" by (simp add: snap_def snap_ok_load)
  have n: "\<And>x. x \<in> set (new_class snap feed) \<Longrightarrow>
             map_of snap x = None \<and> x \<notin> set object_prototype_names"
    using new_ones_lookup by (auto simp: new_class_def)
  have u: "\<And>x. x \<in> set (updated_class snap feed) \<Longrightarrow>
             \<exists>inc. inc \<in> set feed \<and> ID inc = x \<and> Closed inc \<noteq> Some True
                  \<and> ((\<exists>t. map_of snap x = Some t \<and> \<not> closed t)
                     \<or> map_of snap x = None \<and> x \<in> set object_prototype_names)"
  proof -
    fix x assume "x \<in> set (updated_class snap feed)"
    then obtain inc where "inc \<in> set (open_incidents snap feed)" "ID inc = x"
      by (auto simp: updated_class_def)
    with open_incidents_lookup [of inc snap feed] show
      "\<exists>inc. inc \<in> set feed \<and> ID inc = x \<and> Closed inc \<noteq> Some True
            \<and> ((\<exists>t. map_of snap x = Some t \<and> \<not> closed t)
               \<or> map_of snap x = None \<and> x \<in> set object_prototype_names)"
      by blast
  qed
  have c: "\<And>x. x \<in> set (closed_class snap feed) \<Longrightarrow>
             \<exists>inc. inc \<in> set feed \<and> ID inc = x \<and> Closed inc = Some True
                  \<and> ((\<exists>t. map_of snap x = Some t \<and> \<not> closed t)
                     \<or> map_of snap x = None \<and> x \<in> set object_prototype_names)"
  proof -
    fix x assume "x \<in> set (closed_class snap feed)"
    then obtain inc where "inc \<in> set (newly_closed snap feed)" "ID inc = x"
      by (auto simp: closed_class_def)
    with newly_closed_lookup [of inc snap feed] show
      "\<exists>inc. inc \<in> set feed \<and> ID inc = x \<and> Closed inc = Some True
            \<and> ((\<exists>t. map_of snap x = Some t \<and> \<not> closed t)
               \<or> map_of snap x = None \<and> x \<in> set object_prototype_names)"
      by blast
  qed
  have x: "\<And>x. x \<in> set (expired_ids t7 snap) \<Longrightarrow> \<exists>t. map_of snap x = Some t \<and> \<not> closed t"
    using expired_ids_iff [OF ok] by blast
  have p: "\<And>x. x \<in> set (prune_ids t8 snap) \<Longrightarrow> \<exists>t. map_of snap x = Some t \<and> closed t"
    using prune_ids_iff [OF ok] by blast
  have same: "\<And>a b. a \<in> set feed \<Longrightarrow> b \<in> set feed \<Longrightarrow> ID a = ID b \<Longrightarrow> a = b"
    using assms by (meson distinct_map inj_onD)
  have nu: "set (new_class snap feed) \<inter> set (updated_class snap feed) = {}"
    using n u by fastforce
  have nc: "set (new_class snap feed) \<inter> set (closed_class snap feed) = {}"
    using n c by fastforce
  have nx: "set (new_class snap feed) \<inter> set (expired_ids t7 snap) = {}"
    using n x by fastforce
  have np: "set (new_class snap feed) \<inter> set (prune_ids t8 snap) = {}"
    using n p by fastforce
  have uc: "set (updated_class snap feed) \<inter> set (closed_class snap feed) = {}"
  proof (rule ccontr)
    assume "set (updated_class snap feed) \<inter> set (closed_class snap feed) \<noteq> {}"
    then obtain y where y: "y \<in> set (updated_class snap feed)" "y \<in> set (closed_class snap feed)"
      by blast
    from u [OF y(1)] obtain a where a: "a \<in> set feed" "ID a = y" "Closed a \<noteq> Some True" by blast
    from c [OF y(2)] obtain b where b: "b \<in> set feed" "ID b = y" "Closed b = Some True" by blast
    from same [OF a(1) b(1)] a b show False by simp
  qed
  have up: "set (updated_class snap feed) \<inter> set (prune_ids t8 snap) = {}"
    using u p by fastforce
  have cp: "set (closed_class snap feed) \<inter> set (prune_ids t8 snap) = {}"
    using c p by fastforce
  have xp: "set (expired_ids t7 snap) \<inter> set (prune_ids t8 snap) = {}"
    using x p by fastforce
  from nu nc nx np uc up cp xp show ?thesis unfolding snap_def by simp
qed

theorem classes_disjoint_except_expired_witness:
  "distinct (map ID [demo_incident, demo_closed_incident])
   \<and> set (updated_class (load_tracked demo_store) [demo_incident, demo_closed_incident])
        \<inter> set (closed_class (load_tracked demo_store) [demo_incident, demo_closed_incident]) = {}
   \<and> set (new_class (load_tracked demo_store) [demo_incident, demo_closed_incident])
        \<inter> set (expired_ids 90000000 (load_tracked demo_store)) = {}
   \<and> set (expired_ids 90000000 (load_tracked demo_store))
        \<inter> set (prune_ids 90000000 (load_tracked demo_store)) = {}"
proof -
  have h: "distinct (map ID [demo_incident, demo_closed_incident])" by code_simp
  show ?thesis
    using h classes_disjoint_except_expired [OF h, of demo_store 90000000 90000000] by blast
qed

text \<open>
  C3, as the claim states it, fails. The stored identifier is a real one and the patch
  call is refused: the run makes that one call and no other, so no new message is
  created, and the store is as before.
\<close>

theorem failed_patch_creates_no_message:
  "answer env_refused 0 (patch_1234 Alert) = refused
   \<and> calls (reconcile env_refused [demo_incident] (initial demo_store)) = [patch_1234 Alert]
   \<and> kv (reconcile env_refused [demo_incident] (initial demo_store)) = demo_store"
  by code_simp

text \<open>
  C3, amended. Each update, close or expire transition of a record that has a message
  identifier makes exactly one call: a POST to the webhook (a brand-new message) when
  the stored identifier is a fallback, a PATCH of the stored message otherwise. In the
  update transition, a successful creation whose answer carries an identifier stores
  that identifier in the tracking record. The close and the expire transition store
  the record as closed and keep its identifier. When the call is refused, a patch
  included, the transition writes nothing and makes no second call. (The time a
  transition stores is the second clock reading of its round; the first is the one of
  the field list.)
\<close>

theorem fallback_posts_and_failed_patch_skips:
  assumes tr: "map_of (trackedIncidents s) (ID inc) = Some t" and mid: "truthy (messageId t)"
  shows "calls (process_open e inc s) = calls s @
           [transition_request e (DisplayIncidentCallType inc) (or_text (messageId t)) Alert (ID inc)]
       \<and> calls (process_closed e inc s) = calls s @
           [transition_request e (DisplayIncidentCallType inc) (or_text (messageId t)) ClosedNotice (ID inc)]
       \<and> calls (process_expired e (ID inc) s) = calls s @
           [transition_request e (displayIncidentCallType t) (or_text (messageId t)) ExpiredNotice (ID inc)]
       \<and> transition_request e ct (or_text (messageId t)) p (ID inc) =
           (if prefix ''incident-'' (or_text (messageId t))
            then \<lparr>req_method = POST, url = webhook_for e ct, presentation = p, footer_id = ID inc\<rparr>
            else \<lparr>req_method = PATCH, url = webhook_for e ct @ ''/messages/'' @ or_text (messageId t),
                  presentation = p, footer_id = ID inc\<rparr>)
       \<and> (prefix ''incident-'' (or_text (messageId t)) \<and> m \<noteq> []
            \<and> answer e (length (calls s))
                 (transition_request e (DisplayIncidentCallType inc) (or_text (messageId t)) Alert (ID inc))
               = Response True (Json (JObject (Some m) a b))
          \<longrightarrow> map_of (kv (process_open e inc s)) (incident_key (ID inc))
               = Some (t\<lparr>messageId := Some m, lastUpdated := clock e (Suc (ticks s))\<rparr>))
       \<and> (answer e (length (calls s))
             (transition_request e (DisplayIncidentCallType inc) (or_text (messageId t)) ClosedNotice (ID inc))
            = Response True bd
          \<longrightarrow> map_of (kv (process_closed e inc s)) (incident_key (ID inc))
               = Some (t\<lparr>closed := True, lastUpdated := clock e (Suc (ticks s))\<rparr>))
       \<and> (answer e (length (calls s))
             (transition_request e (displayIncidentCallType t) (or_text (messageId t)) ExpiredNotice (ID inc))
            = Response True bd
          \<longrightarrow> map_of (kv (process_expired e (ID inc) s)) (incident_key (ID inc))
               = Some (t\<lparr>closed := True, lastUpdated := clock e (Suc (ticks s))\<rparr>))
       \<and> (\<not> ok_response (answer e (length (calls s))
             (transition_request e (DisplayIncidentCallType inc) (or_text (messageId t)) Alert (ID inc)))
          \<longrightarrow> untouched (process_open e inc s) s)
       \<and> (\<not> ok_response (answer e (length (calls s))
             (transition_request e (DisplayIncidentCallType inc) (or_text (messageId t)) ClosedNotice (ID inc)))
          \<longrightarrow> untouched (process_closed e inc s) s)
       \<and> (\<not> ok_response (answer e (length (calls s))
             (transition_request e (displayIncidentCallType t) (or_text (messageId t)) ExpiredNotice (ID inc)))
          \<longrightarrow> untouched (process_expired e (ID inc) s) s)"
  using one_call_each [OF tr mid, of e] transition_request_method [of e ct "or_text (messageId t)" p "ID inc"]
    update_adopts [OF tr mid, of e m a b] closing_keeps_id [OF tr mid, of e bd]
    untouched_refused [OF tr mid, of e]
  by (intro conjI impI) blast+

theorem fallback_posts_and_failed_patch_skips_witness:
  "map_of (trackedIncidents fallback_state) (ID demo_incident) = Some fallback_record
   \<and> truthy (messageId fallback_record)
   \<and> calls (process_open env_created demo_incident fallback_state) = [post_primary Alert]
   \<and> calls (process_closed env_created demo_incident fallback_state) = [post_primary ClosedNotice]
   \<and> map_of (kv (process_open env_created demo_incident fallback_state)) (incident_key ''7'')
      = Some (fallback_record\<lparr>messageId := Some ''5678'', lastUpdated := 1000\<rparr>)
   \<and> map_of (kv (process_closed env_created demo_incident fallback_state)) (incident_key ''7'')
      = Some (fallback_record\<lparr>closed := True, lastUpdated := 1000\<rparr>)
   \<and> untouched (process_open env_refused demo_incident fallback_state) fallback_state"
proof -
  have h1: "map_of (trackedIncidents fallback_state) (ID demo_incident) = Some fallback_record"
    by code_simp
  have h2: "truthy (messageId fallback_record)" by code_simp
  have pre: "prefix ''incident-'' (or_text (messageId fallback_record))" by code_simp
  have base: "webhook_for env_created (DisplayIncidentCallType demo_incident) = ''https://primary''"
    "webhook_for env_refused (DisplayIncidentCallType demo_incident) = ''https://primary''"
    by code_simp+
  have start: "calls fallback_state = []" "ticks fallback_state = 0" "ID demo_incident = ''7''"
    by code_simp+
  have ans: "\<And>n q. answer env_created n q = Response True (Json (JObject (Some ''5678'') None None))"
    "\<And>n q. \<not> ok_response (answer env_refused n q)" "\<And>n. clock env_created n = 1000"
    by (simp_all add: env_created_def env_refused_def created_def refused_def ok_response_def)
  note good = fallback_posts_and_failed_patch_skips [OF h1 h2, of env_created
      "DisplayIncidentCallType demo_incident" Alert "''5678''" None None "Json (JObject (Some ''5678'') None None)"]
  note good2 = fallback_posts_and_failed_patch_skips [OF h1 h2, of env_created
      "DisplayIncidentCallType demo_incident" ClosedNotice "''5678''" None None "Json (JObject (Some ''5678'') None None)"]
  note bad = fallback_posts_and_failed_patch_skips [OF h1 h2, of env_refused
      "DisplayIncidentCallType demo_incident" Alert "''5678''" None None Blank]
  show ?thesis
    using h1 h2 good good2 bad
    by (simp add: pre base start ans post_primary_def)
qed

text \<open>
  C4. Over any sequence of runs that starts from a well-formed store, no write puts a
  record with \<open>closed = False\<close> under a key whose current record has \<open>closed = True\<close>:
  once closed, a record stays closed until it is deleted.
\<close>

theorem closed_never_reopened:
  assumes "wf_store st"
  shows "closed_monotone st (ops (reconcile_all runs (initial st)))"
proof -
  have "\<And>s. history st (view s) \<Longrightarrow> history st (view (reconcile_all runs s))"
  proof (induction runs)
    case Nil
    then show ?case by (simp add: reconcile_all_def)
  next
    case (Cons a runs)
    obtain e feed where a: "a = (e, feed)" by (cases a)
    have "history st (view (reconcile e feed s))" using Cons.prems by (rule reconcile_history)
    from Cons.IH [OF this] show ?case by (simp add: reconcile_all_def a)
  qed
  from this [of "initial st"] assms show ?thesis
    by (simp add: history_def view_def initial_def)
qed

theorem closed_never_reopened_witness:
  "wf_store demo_store
   \<and> closed_monotone demo_store
        (ops (reconcile_all [(env_stale, [demo_incident]), (env_created, [demo_incident])]
                (initial demo_store)))"
proof -
  have h: "wf_store demo_store" by code_simp
  show ?thesis using h closed_never_reopened [OF h] by blast
qed




text \<open>
  C9. A tracking record with no message identifier, in a well-formed store: the run
  makes no notification call about it and no put under its key, and the record is
  unchanged after the run; only the pruning step can remove it, when it is closed.
\<close>

theorem record_without_message_id_is_skipped:
  assumes wf: "wf_store st" and rec: "map_of st (incident_key x) = Some r"
    and mid: "messageId r = None"
  shows "(\<forall>q\<in>set (calls (reconcile e feed (initial st))). footer_id q \<noteq> x)
       \<and> (\<forall>v. Put (incident_key x) v \<notin> set (ops (reconcile e feed (initial st))))
       \<and> (map_of (kv (reconcile e feed (initial st))) (incident_key x) = Some r
          \<or> closed r \<and> map_of (kv (reconcile e feed (initial st))) (incident_key x) = None)"
proof -
  define P :: "view \<Rightarrow> bool" where
    "P = (\<lambda>(kvs, os, cs). (\<forall>q\<in>set cs. footer_id q \<noteq> x)
            \<and> (\<forall>v. Put (incident_key x) v \<notin> set os)
            \<and> (map_of kvs (incident_key x) = Some r \<or> closed r \<and> map_of kvs (incident_key x) = None))"
  have snap: "map_of (load_tracked (kv (initial st))) x = Some r"
    using map_of_load_tracked [OF wf] rec by simp
  have other: "\<And>acc y c v v'. y \<noteq> x \<Longrightarrow> P v \<Longrightarrow> att acc e y c v v' \<Longrightarrow> P v'"
  proof -
    fix acc y c and v v' :: view
    assume y: "y \<noteq> x" and Pv: "P v" and a: "att acc e y c v v'"
    obtain st1 os1 cs1 where v: "v = (st1, os1, cs1)" by (cases v)
    obtain st2 os2 cs2 where v': "v' = (st2, os2, cs2)" by (cases v')
    have k: "map_of st2 (incident_key x) = map_of st1 (incident_key x)"
      using att_other_key [OF a [unfolded v v'], of "incident_key x"] y by simp
    show "P v'"
      using Pv att_calls [OF a [unfolded v v']] att_ops [OF a [unfolded v v']] y k
      by (auto simp: P_def v v')
  qed
  have "P (view (reconcile e feed (initial st)))"
  proof (rule reconcile_rule [where P = P])
    show "P (view (initial st))" using rec by (simp add: P_def)
  next
    fix inc v v'
    assume n: "map_of (load_tracked (kv (initial st))) (ID inc) = None" and Pv: "P v"
      and a: "att stored_response e (ID inc) False v v'"
    have "ID inc \<noteq> x" using n snap by auto
    from other [OF this Pv a] show "P v'" .
  next
    fix inc t v v'
    assume n: "map_of (load_tracked (kv (initial st))) (ID inc) = Some t" "truthy (messageId t)"
      and Pv: "P v" and a: "att ok_response e (ID inc) False v v'"
    have "ID inc \<noteq> x" using n snap mid by (auto simp: truthy_def)
    from other [OF this Pv a] show "P v'" .
  next
    fix inc t v v'
    assume n: "map_of (load_tracked (kv (initial st))) (ID inc) = Some t" "truthy (messageId t)"
      and Pv: "P v" and a: "att ok_response e (ID inc) True v v'"
    have "ID inc \<noteq> x" using n snap mid by (auto simp: truthy_def)
    from other [OF this Pv a] show "P v'" .
  next
    fix y t v v'
    assume n: "map_of (load_tracked (kv (initial st))) y = Some t" "truthy (messageId t)"
      and Pv: "P v" and a: "att ok_response e y True v v'"
    have "y \<noteq> x" using n snap mid by (auto simp: truthy_def)
    from other [OF this Pv a] show "P v'" .
  next
    fix y t st1 os1 cs1
    assume "map_of (load_tracked (kv (initial st))) y = Some t" "closed t" "P (st1, os1, cs1)"
    then show "P (AList.delete (incident_key y) st1, os1 @ [Delete (incident_key y)], cs1)"
      using snap by (cases "y = x") (auto simp: P_def delete_conv')
  qed
  then show ?thesis by (simp add: P_def view_def)
qed

theorem record_without_message_id_is_skipped_witness:
  "wf_store bare_store
   \<and> map_of bare_store (incident_key ''7'') = Some bare_record
   \<and> messageId bare_record = None
   \<and> list_all (\<lambda>q. footer_id q \<noteq> ''7'') (calls (reconcile env_stale [demo_incident] (initial bare_store)))
   \<and> map_of (kv (reconcile env_stale [demo_incident] (initial bare_store))) (incident_key ''7'')
      = Some bare_record"
proof -
  have h1: "wf_store bare_store" by code_simp
  have h2: "map_of bare_store (incident_key ''7'') = Some bare_record" by code_simp
  have h3: "messageId bare_record = None" by code_simp
  have opn: "\<not> closed bare_record" by code_simp
  show ?thesis
    using h1 h2 h3 opn record_without_message_id_is_skipped [OF h1 h2 h3, of env_stale "[demo_incident]"]
    by (simp add: list_all_iff)
qed

end
